theory Spec2Isabelle
  imports Main "HOL-Library.Char_ord" "HOL-Library.List_Lexorder" "HOL-Library.AList"
    "HOL-Library.Sublist"
begin

section \<open>Ingestion pipeline of build\_db.py\<close>

text \<open>
  A shallow embedding of \<^verbatim>\<open>src/build_db.py\<close>: the text parser
  (\<^verbatim>\<open>_parse_case_number\<close>, \<^verbatim>\<open>_parse_events\<close>, \<^verbatim>\<open>_derive_title\<close>), the
  text extractor, the directory scan, and the persister.

  Python strings are modelled as \<^typ>\<open>string\<close>, a \<^typ>\<open>char\<close> standing for the code
  point with the same number. The model therefore covers texts whose code points are
  below 256; on that range the character classes below are the ones CPython uses
  (\<^verbatim>\<open>Py_UNICODE_ISSPACE\<close>, \<^verbatim>\<open>Py_UNICODE_ISLINEBREAK\<close>, \<^verbatim>\<open>Py_UNICODE_ISDECIMAL\<close>,
  \<^verbatim>\<open>Py_UNICODE_ISALNUM\<close>).
\<close>

subsection \<open>Character classes and string helpers\<close>

text \<open>\<^verbatim>\<open>str.strip()\<close> and the pattern class \<^verbatim>\<open>\s\<close>: tab, LF, VT, FF, CR, the
  separators 0x1C to 0x1F, space, NEL (0x85) and no-break space (0xA0).\<close>

definition isspace :: "char \<Rightarrow> bool" where
  "isspace c = (of_char c \<in> set [9, 10, 11, 12, 13, 28, 29, 30, 31, 32, 133, 160 :: nat])"

text \<open>The line boundaries of \<^verbatim>\<open>str.splitlines()\<close>.\<close>

definition islinebreak :: "char \<Rightarrow> bool" where
  "islinebreak c = (of_char c \<in> set [10, 11, 12, 13, 28, 29, 30, 133 :: nat])"

text \<open>The pattern class \<^verbatim>\<open>\d\<close>: the decimal digits.\<close>

definition isdigit :: "char \<Rightarrow> bool" where
  "isdigit c = (48 \<le> (of_char c :: nat) \<and> (of_char c :: nat) \<le> 57)"

text \<open>The pattern class \<^verbatim>\<open>\w\<close>: alphanumeric code points and the underscore. Below
  256 these are the ASCII letters and digits, the underscore, the ordinal indicators,
  the micro sign, the superscript digits, the vulgar fractions and the accented
  letters (all of 0xC0 to 0xFF but the multiplication and division signs).\<close>

definition isword :: "char \<Rightarrow> bool" where
  "isword c =
     (let n = (of_char c :: nat) in
        (48 \<le> n \<and> n \<le> 57) \<or> (65 \<le> n \<and> n \<le> 90) \<or> (97 \<le> n \<and> n \<le> 122) \<or> n = 95 \<or>
        n \<in> set [170, 178, 179, 181, 185, 186, 188, 189, 190] \<or>
        (192 \<le> n \<and> n \<le> 255 \<and> n \<noteq> 215 \<and> n \<noteq> 247))"

definition newline :: char where
  "newline = CHR 0x0A"

text \<open>\<^verbatim>\<open>s.strip()\<close>: leading and trailing whitespace removed.\<close>

definition strip :: "string \<Rightarrow> string" where
  "strip s = rev (dropWhile isspace (rev (dropWhile isspace s)))"

text \<open>\<^verbatim>\<open>s.splitlines()\<close>: the text is cut at every line boundary, CR LF counting as
  one boundary; the boundaries are dropped, and a final boundary opens no empty line.\<close>

function splitlines :: "string \<Rightarrow> string list" where
  "splitlines s =
     (if s = [] then []
      else takeWhile (\<lambda>c. \<not> islinebreak c) s #
        (case dropWhile (\<lambda>c. \<not> islinebreak c) s of
           [] \<Rightarrow> []
         | c # cs \<Rightarrow>
             (case cs of
                [] \<Rightarrow> splitlines cs
              | d # ds \<Rightarrow>
                  if c = CHR 0x0D \<and> d = CHR 0x0A then splitlines ds else splitlines cs)))"
  by pat_completeness auto
termination
proof (relation "measure length")
  show "wf (measure length)" by simp
next
  fix s :: string and c cs
  assume a: "dropWhile (\<lambda>c. \<not> islinebreak c) s = c # cs"
  have "length (dropWhile (\<lambda>c. \<not> islinebreak c) s) \<le> length s"
    by (rule length_dropWhile_le)
  with a show "(cs, s) \<in> measure length" by simp
next
  fix s :: string and c cs d ds
  assume a: "dropWhile (\<lambda>c. \<not> islinebreak c) s = c # cs" "cs = d # ds"
  have "length (dropWhile (\<lambda>c. \<not> islinebreak c) s) \<le> length s"
    by (rule length_dropWhile_le)
  with a show "(ds, s) \<in> measure length" by simp
next
  fix s :: string and c cs d ds
  assume a: "dropWhile (\<lambda>c. \<not> islinebreak c) s = c # cs" "cs = d # ds"
  have "length (dropWhile (\<lambda>c. \<not> islinebreak c) s) \<le> length s"
    by (rule length_dropWhile_le)
  with a show "(cs, s) \<in> measure length" by simp
qed

declare splitlines.simps [simp del]

subsection \<open>Title derivation\<close>

text \<open>The placeholder \<^verbatim>\<open>"Processo sem t\<close>i\<^verbatim>\<open>tulo"\<close>, its accented letter being the code
  point 0xED.\<close>

definition title_placeholder :: string where
  "title_placeholder = ''Processo sem t'' @ [CHR 0xED] @ ''tulo''"

text \<open>The loop of \<^verbatim>\<open>_derive_title\<close> over the lines: the first line whose stripped form
  is not empty returns its first 200 characters.\<close>

fun derive_title_loop :: "string list \<Rightarrow> string" where
  "derive_title_loop [] = title_placeholder"
| "derive_title_loop (line # rest) =
     (let cleaned = strip line in
        if cleaned \<noteq> [] then take 200 cleaned else derive_title_loop rest)"

definition derive_title :: "string \<Rightarrow> string" where
  "derive_title text = derive_title_loop (splitlines text)"

subsection \<open>Properties of title derivation\<close>

lemma derive_title_loop_find:
  "derive_title_loop ls =
     (case find (\<lambda>l. strip l \<noteq> []) ls of
        None \<Rightarrow> title_placeholder
      | Some l \<Rightarrow> take 200 (strip l))"
  by (induction ls) (simp_all add: Let_def)

lemma title_placeholder_length: "length title_placeholder = 19"
  by (simp add: title_placeholder_def)

lemma derive_title_loop_length: "length (derive_title_loop ls) \<le> 200"
  by (induction ls) (simp_all add: Let_def title_placeholder_length)

lemma splitlines_subset: "l \<in> set (splitlines s) \<Longrightarrow> set l \<subseteq> set s"
proof (induction s rule: splitlines.induct)
  case (1 s)
  show ?case
  proof (cases "s = []")
    case True
    with "1.prems" show ?thesis by (simp add: splitlines.simps)
  next
    case False
    let ?r = "dropWhile (\<lambda>c. \<not> islinebreak c) s"
    have rsub: "set ?r \<subseteq> set s" by (auto dest: set_dropWhileD)
    have tsub: "set (takeWhile (\<lambda>c. \<not> islinebreak c) s) \<subseteq> set s"
      by (auto dest: set_takeWhileD)
    show ?thesis
    proof (cases ?r)
      case Nil
      with False "1.prems" tsub show ?thesis by (simp add: splitlines.simps[of s])
    next
      case (Cons c cs)
      note r = Cons
      show ?thesis
      proof (cases cs)
        case Nil
        with False r "1.prems" tsub show ?thesis
          by (simp add: splitlines.simps[of s] splitlines.simps[of "[]"])
      next
        case (Cons d ds)
        have cssub: "set cs \<subseteq> set s" using rsub r by auto
        have dssub: "set ds \<subseteq> set s" using cssub Cons by auto
        show ?thesis
        proof (cases "c = CHR 0x0D \<and> d = CHR 0x0A")
          case True
          from "1.prems" False r Cons True
          have "l = takeWhile (\<lambda>c. \<not> islinebreak c) s \<or> l \<in> set (splitlines ds)"
            by (simp add: splitlines.simps[of s])
          then show ?thesis
          proof
            assume "l = takeWhile (\<lambda>c. \<not> islinebreak c) s"
            with tsub show ?thesis by simp
          next
            assume "l \<in> set (splitlines ds)"
            then have "set l \<subseteq> set ds"
              using "1.IH"(2)[OF False r Cons True] by simp
            with dssub show ?thesis by blast
          qed
        next
          case nocrlf: False
          from "1.prems" False r Cons nocrlf
          have "l = takeWhile (\<lambda>c. \<not> islinebreak c) s \<or> l \<in> set (splitlines cs)"
            by (auto simp add: splitlines.simps[of s])
          then show ?thesis
          proof
            assume "l = takeWhile (\<lambda>c. \<not> islinebreak c) s"
            with tsub show ?thesis by simp
          next
            assume "l \<in> set (splitlines cs)"
            then have "set l \<subseteq> set cs"
              using "1.IH"(3)[OF False r Cons nocrlf] by simp
            with cssub show ?thesis by blast
          qed
        qed
      qed
    qed
  qed
qed

lemma strip_blank: "list_all isspace l \<Longrightarrow> strip l = []"
proof -
  assume "list_all isspace l"
  then have "dropWhile isspace l = []"
    by (induction l) simp_all
  then show ?thesis by (simp only: strip_def rev.simps dropWhile.simps)
qed

lemma find_blank_lines:
  assumes "list_all isspace text"
  shows "find (\<lambda>l. strip l \<noteq> []) (splitlines text) = None"
proof -
  have "strip l = []" if "l \<in> set (splitlines text)" for l
  proof -
    from that have "set l \<subseteq> set text" by (rule splitlines_subset)
    with assms have "list_all isspace l" by (auto simp: list_all_iff)
    then show ?thesis by (rule strip_blank)
  qed
  then show ?thesis by (simp add: find_None_iff)
qed

text \<open>
  Claim C9. For every input text, the derived title is the first line (of
  \<^verbatim>\<open>splitlines\<close>) that is not blank after trimming, trimmed and cut to at most 200
  characters; when no such line exists it is the fixed placeholder. In particular the
  title never exceeds 200 characters, a text of whitespace only yields the placeholder,
  and the text of two empty lines, \<^verbatim>\<open>Hello World\<close> and \<^verbatim>\<open>More text\<close> yields
  \<^verbatim>\<open>Hello World\<close>.
\<close>

theorem derive_title_first_nonblank_line:
  "derive_title text =
     (case find (\<lambda>l. strip l \<noteq> []) (splitlines text) of
        None \<Rightarrow> title_placeholder
      | Some l \<Rightarrow> take 200 (strip l))
   \<and> length (derive_title text) \<le> 200
   \<and> (list_all isspace text \<longrightarrow> derive_title text = title_placeholder)
   \<and> derive_title ([newline, newline] @ ''Hello World'' @ [newline] @ ''More text'')
       = ''Hello World''"
proof (intro conjI impI)
  show "derive_title text =
     (case find (\<lambda>l. strip l \<noteq> []) (splitlines text) of
        None \<Rightarrow> title_placeholder
      | Some l \<Rightarrow> take 200 (strip l))"
    by (simp add: derive_title_def derive_title_loop_find)
  show "length (derive_title text) \<le> 200"
    by (simp add: derive_title_def derive_title_loop_length)
  show "derive_title text = title_placeholder" if "list_all isspace text"
    using find_blank_lines[OF that]
    by (simp add: derive_title_def derive_title_loop_find)
  show "derive_title ([newline, newline] @ ''Hello World'' @ [newline] @ ''More text'')
       = ''Hello World''"
    by (simp add: derive_title_def newline_def splitlines.simps islinebreak_def
        strip_def isspace_def)
qed

theorem derive_title_first_nonblank_line_witness:
  "list_all isspace ([CHR '' '', newline, CHR 0x09]) \<and>
   derive_title ([CHR '' '', newline, CHR 0x09]) = title_placeholder \<and>
   derive_title (''  Autos n. 12  '' @ [newline] @ ''x'') = ''Autos n. 12''"
proof -
  have blank: "list_all isspace ([CHR '' '', newline, CHR 0x09])"
    by (simp add: isspace_def newline_def)
  have title: "derive_title ([CHR '' '', newline, CHR 0x09]) = title_placeholder"
    using blank derive_title_first_nonblank_line[of "[CHR '' '', newline, CHR 0x09]"]
    by blast
  have "derive_title (''  Autos n. 12  '' @ [newline] @ ''x'') = ''Autos n. 12''"
    by (simp add: derive_title_def newline_def splitlines.simps islinebreak_def
        strip_def isspace_def)
  with blank title show ?thesis by blast
qed

subsection \<open>Exceptions\<close>

text \<open>The exceptions the pipeline raises. \<^verbatim>\<open>PdfTextExtractionError\<close> is a subclass of
  \<^verbatim>\<open>BuildDbError\<close>; both carry their message. \<^verbatim>\<open>OSError\<close> stands for the errors of
  the file system (a missing file among them) and \<^verbatim>\<open>SqliteError\<close> for those of the
  database engine; neither is a \<^verbatim>\<open>BuildDbError\<close>.\<close>

datatype exn = BuildDbError string | PdfTextExtractionError string | OSError | SqliteError

fun is_BuildDbError :: "exn \<Rightarrow> bool" where
  "is_BuildDbError (BuildDbError m) = True"
| "is_BuildDbError (PdfTextExtractionError m) = True"
| "is_BuildDbError e = False"

subsection \<open>The regular expressions of the parser\<close>

text \<open>
  The three patterns of the source are built from single-character classes
  (\<^verbatim>\<open>\d\<close>, \<^verbatim>\<open>\s\<close>, \<^verbatim>\<open>.\<close> and literal characters), counted and greedy repetitions
  of such a class, the anchors \<^verbatim>\<open>^\<close> and \<^verbatim>\<open>$\<close> (both patterns that use them are
  compiled with \<^verbatim>\<open>re.MULTILINE\<close>), the word boundary \<^verbatim>\<open>\b\<close>, groups and
  concatenation. The datatype below is that fragment, and \<open>rx\<close> is a backtracking
  matcher for it in continuation-passing style: alternatives are tried in the order of
  Python's \<^verbatim>\<open>re\<close> (a greedy repetition first takes the longest run and gives back one
  character at a time), and the first alternative under which the rest of the pattern
  matches is the match.
\<close>

datatype cclass = Digit | Space | AnyChar | Lit char

fun cmatch :: "cclass \<Rightarrow> char \<Rightarrow> bool" where
  "cmatch Digit c = isdigit c"
| "cmatch Space c = isspace c"
| "cmatch AnyChar c = (c \<noteq> newline)"
| "cmatch (Lit a) c = (c = a)"

datatype regex =
    Chr cclass
  | Times nat cclass
  | Plus cclass
  | Star cclass
  | Bol
  | Eol
  | WordB
  | Group string regex
  | Cat "regex list"

text \<open>A matcher state: the character before the current position (\<open>None\<close> at the start
  of the text), the text from the current position on, and the groups captured so far.\<close>

type_synonym mstate = "char option \<times> string \<times> (string \<times> string) list"

text \<open>The state after consuming \<open>j\<close> characters (\<open>j\<close> never exceeds the remaining
  length where it is used).\<close>

definition advance :: "nat \<Rightarrow> mstate \<Rightarrow> mstate" where
  "advance j st =
     (case st of (p, r, g) \<Rightarrow> (if j = 0 then p else Some (r ! (j - 1)), drop j r, g))"

text \<open>The first of \<open>f n\<close>, \<open>f (n - 1)\<close>, ..., \<open>f 1\<close> that succeeds.\<close>

fun try_down :: "nat \<Rightarrow> (nat \<Rightarrow> 'a option) \<Rightarrow> 'a option" where
  "try_down 0 f = None"
| "try_down (Suc j) f = (case f (Suc j) of Some x \<Rightarrow> Some x | None \<Rightarrow> try_down j f)"

text \<open>The length of the longest run of characters of a class at the current position.\<close>

definition run_length :: "cclass \<Rightarrow> string \<Rightarrow> nat" where
  "run_length k r = length (takeWhile (cmatch k) r)"

fun rx :: "regex \<Rightarrow> mstate \<Rightarrow> (mstate \<Rightarrow> 'a option) \<Rightarrow> 'a option" where
  "rx (Chr k) (p, r, g) K =
     (case r of [] \<Rightarrow> None | c # cs \<Rightarrow> if cmatch k c then K (Some c, cs, g) else None)"
| "rx (Times n k) (p, r, g) K =
     (if n \<le> run_length k r then K (advance n (p, r, g)) else None)"
| "rx (Plus k) (p, r, g) K =
     try_down (run_length k r) (\<lambda>j. K (advance j (p, r, g)))"
| "rx (Star k) (p, r, g) K =
     (case try_down (run_length k r) (\<lambda>j. K (advance j (p, r, g))) of
        Some x \<Rightarrow> Some x
      | None \<Rightarrow> K (p, r, g))"
| "rx Bol (p, r, g) K = (if p = None \<or> p = Some newline then K (p, r, g) else None)"
| "rx Eol (p, r, g) K = (if r = [] \<or> hd r = newline then K (p, r, g) else None)"
| "rx WordB (p, r, g) K =
     (if (case p of None \<Rightarrow> False | Some c \<Rightarrow> isword c)
          \<noteq> (case r of [] \<Rightarrow> False | c # cs \<Rightarrow> isword c)
      then K (p, r, g) else None)"
| "rx (Group n e) (p, r, g) K =
     rx e (p, r, g) (\<lambda>(p', r', g'). K (p', r', g' @ [(n, take (length r - length r') r)]))"
| "rx (Cat []) st K = K st"
| "rx (Cat (e # es)) st K = rx e st (\<lambda>st'. rx (Cat es) st' K)"

text \<open>A match object: \<^verbatim>\<open>group(0)\<close> and the captured groups by name.\<close>

record rmatch =
  whole :: string
  groups :: "(string \<times> string) list"

text \<open>A match attempt at the current position.\<close>

definition match_here :: "regex \<Rightarrow> char option \<Rightarrow> string \<Rightarrow> rmatch option" where
  "match_here re p r =
     (case rx re (p, r, []) Some of
        None \<Rightarrow> None
      | Some (p', r', g) \<Rightarrow> Some \<lparr>whole = take (length r - length r') r, groups = g\<rparr>)"

text \<open>\<^verbatim>\<open>pattern.search(text)\<close>: the match at the leftmost position that has one.\<close>

fun search_from :: "regex \<Rightarrow> char option \<Rightarrow> string \<Rightarrow> rmatch option" where
  "search_from re p [] = match_here re p []"
| "search_from re p (c # cs) =
     (case match_here re p (c # cs) of
        Some m \<Rightarrow> Some m
      | None \<Rightarrow> search_from re (Some c) cs)"

definition search :: "regex \<Rightarrow> string \<Rightarrow> rmatch option" where
  "search re text = search_from re None text"

subsection \<open>Case number\<close>

text \<open>\<^verbatim>\<open>PROCESS_NUMBER_RE = \b\d{7}-\d{2}\.\d{4}\.\d\.\d{2}\.\d{4}\b\<close>\<close>

definition PROCESS_NUMBER_RE :: regex where
  "PROCESS_NUMBER_RE =
     Cat [WordB, Times 7 Digit, Chr (Lit CHR ''-''), Times 2 Digit, Chr (Lit CHR ''.''),
          Times 4 Digit, Chr (Lit CHR ''.''), Chr Digit, Chr (Lit CHR ''.''),
          Times 2 Digit, Chr (Lit CHR ''.''), Times 4 Digit, WordB]"

text \<open>The message of the error raised when no case number is found:
  \<^verbatim>\<open>"N\<close>a\<^verbatim>\<open>o foi poss\<close>i\<^verbatim>\<open>vel identificar o n\<close>u\<^verbatim>\<open>mero do processo no documento."\<close>
  with its accented letters 0xE3, 0xED and 0xFA.\<close>

definition case_number_not_found :: string where
  "case_number_not_found =
     ''N'' @ [CHR 0xE3] @ ''o foi poss'' @ [CHR 0xED] @ ''vel identificar o n'' @ [CHR 0xFA]
       @ ''mero do processo no documento.''"

text \<open>\<^verbatim>\<open>_parse_case_number\<close>\<close>

definition parse_case_number :: "string \<Rightarrow> exn + string" where
  "parse_case_number text =
     (case search PROCESS_NUMBER_RE text of
        None \<Rightarrow> Inl (BuildDbError case_number_not_found)
      | Some m \<Rightarrow> Inr (whole m))"


text \<open>The canonical case-number format in the words of the specification: runs of digits
  of given lengths and separator characters.\<close>

datatype piece = Digits nat | Sep char

fun conforms :: "piece list \<Rightarrow> string \<Rightarrow> bool" where
  "conforms [] s = (s = [])"
| "conforms (Digits n # ps) s =
     (n \<le> length s \<and> list_all isdigit (take n s) \<and> conforms ps (drop n s))"
| "conforms (Sep c # ps) s = (case s of [] \<Rightarrow> False | x # xs \<Rightarrow> x = c \<and> conforms ps xs)"

definition case_number_form :: "string \<Rightarrow> bool" where
  "case_number_form s =
     conforms [Digits 7, Sep CHR ''-'', Digits 2, Sep CHR ''.'', Digits 4, Sep CHR ''.'',
               Digits 1, Sep CHR ''.'', Digits 2, Sep CHR ''.'', Digits 4] s"

text \<open>A word character stands right before offset \<open>i\<close>, or at offset \<open>j\<close>, of the
  text.\<close>

definition word_before :: "string \<Rightarrow> nat \<Rightarrow> bool" where
  "word_before text i = (0 < i \<and> isword (text ! (i - 1)))"

definition word_after :: "string \<Rightarrow> nat \<Rightarrow> bool" where
  "word_after text j = (j < length text \<and> isword (text ! j))"

text \<open>An occurrence of the canonical format at offset \<open>i\<close> that no word character
  touches on either side.\<close>

definition delimited_case_number_at :: "string \<Rightarrow> nat \<Rightarrow> bool" where
  "delimited_case_number_at text i =
     (case_number_form (take 25 (drop i text)) \<and> \<not> word_before text i
        \<and> \<not> word_after text (i + 25))"

subsection \<open>Properties of the case-number pattern\<close>

text \<open>The pattern element of a piece of the format.\<close>

fun piece_rx :: "piece \<Rightarrow> regex" where
  "piece_rx (Digits n) = (if n = 1 then Chr Digit else Times n Digit)"
| "piece_rx (Sep c) = Chr (Lit c)"

fun piece_len :: "piece \<Rightarrow> nat" where
  "piece_len (Digits n) = n"
| "piece_len (Sep c) = 1"

definition pieces_len :: "piece list \<Rightarrow> nat" where
  "pieces_len ps = sum_list (map piece_len ps)"

lemma rx_Cat_append: "rx (Cat (xs @ ys)) st K = rx (Cat xs) st (\<lambda>st'. rx (Cat ys) st' K)"
  by (induction xs arbitrary: st K) simp_all

lemma run_length_ge:
  "n \<le> run_length k r \<longleftrightarrow> n \<le> length r \<and> list_all (cmatch k) (take n r)"
proof (induction r arbitrary: n)
  case Nil
  then show ?case by (simp add: run_length_def)
next
  case (Cons c cs)
  show ?case
  proof (cases n)
    case 0
    then show ?thesis by simp
  next
    case (Suc m)
    with Cons[of m] show ?thesis by (simp add: run_length_def)
  qed
qed

lemma rx_Chr_Times: "rx (Chr k) (p, r, g) K = rx (Times 1 k) (p, r, g) K"
  by (cases r) (simp_all add: run_length_def advance_def)

lemma advance_advance:
  "n \<le> length r \<Longrightarrow> advance m (advance n (p, r, g)) = advance (n + m) (p, r, g)"
proof (cases m)
  case 0
  then show ?thesis by (simp add: advance_def)
next
  case (Suc k)
  assume le: "n \<le> length r"
  have "drop (Suc k) (drop n r) = drop (n + Suc k) r"
    by (simp only: drop_drop add.commute[of n "Suc k"])
  moreover have "drop n r ! k = r ! (n + Suc k - 1)"
    using le by simp
  ultimately show ?thesis using Suc by (simp add: advance_def)
qed

lemma rx_Times:
  "rx (Times n k) (p, r, g) K =
     (if n \<le> length r \<and> list_all (cmatch k) (take n r) then K (advance n (p, r, g)) else None)"
  by (simp add: run_length_ge)

lemma list_all_cmatch_Digit: "list_all (cmatch Digit) xs = list_all isdigit xs"
  by (induction xs) simp_all

lemma rx_piece:
  "rx (piece_rx a) (p, r, g) K =
     (if piece_len a \<le> length r \<and> conforms [a] (take (piece_len a) r)
      then K (advance (piece_len a) (p, r, g)) else None)"
proof (cases a)
  case (Digits n)
  have "rx (piece_rx a) (p, r, g) K = rx (Times n Digit) (p, r, g) K"
    using Digits by (simp add: rx_Chr_Times del: rx.simps)
  also have "\<dots> = (if n \<le> length r \<and> list_all isdigit (take n r)
                     then K (advance n (p, r, g)) else None)"
    by (simp only: rx_Times list_all_cmatch_Digit)
  also have "n \<le> length r \<and> list_all isdigit (take n r)
               \<longleftrightarrow> piece_len a \<le> length r \<and> conforms [a] (take (piece_len a) r)"
    using Digits by (auto simp: min_def)
  finally show ?thesis using Digits by simp
next
  case (Sep c)
  then show ?thesis by (cases r) (simp_all add: advance_def)
qed

lemma conforms_Cons:
  "conforms (a # ps) s \<longleftrightarrow>
     piece_len a \<le> length s \<and> conforms [a] (take (piece_len a) s)
       \<and> conforms ps (drop (piece_len a) s)"
proof (cases a)
  case (Digits n)
  then show ?thesis by (cases "n \<le> length s") simp_all
next
  case (Sep c)
  then show ?thesis by (cases s) simp_all
qed

lemma conforms_length: "conforms ps s \<Longrightarrow> length s = pieces_len ps"
proof (induction ps arbitrary: s)
  case Nil
  then show ?case by (simp add: pieces_len_def)
next
  case (Cons a ps)
  from Cons.prems have "piece_len a \<le> length s" "conforms ps (drop (piece_len a) s)"
    using conforms_Cons[of a ps s] by blast+
  with Cons.IH[of "drop (piece_len a) s"] show ?case by (simp add: pieces_len_def)
qed

lemma conforms_Cons_take:
  "conforms (a # ps) (take (piece_len a + m) r) \<longleftrightarrow>
     piece_len a \<le> length r \<and> conforms [a] (take (piece_len a) r)
       \<and> conforms ps (take m (drop (piece_len a) r))"
proof -
  have t: "take (piece_len a) (take (piece_len a + m) r) = take (piece_len a) r"
    by simp
  have d: "drop (piece_len a) (take (piece_len a + m) r) = take m (drop (piece_len a) r)"
    by (simp add: drop_take)
  have l: "piece_len a \<le> length (take (piece_len a + m) r) \<longleftrightarrow> piece_len a \<le> length r"
    by simp
  show ?thesis
    unfolding conforms_Cons[of a ps "take (piece_len a + m) r"] t d l ..
qed

lemma rx_pieces:
  "rx (Cat (map piece_rx ps @ es)) (p, r, g) K =
     (if pieces_len ps \<le> length r \<and> conforms ps (take (pieces_len ps) r)
      then rx (Cat es) (advance (pieces_len ps) (p, r, g)) K else None)"
proof (induction ps arbitrary: p r)
  case Nil
  show ?case by (simp add: pieces_len_def advance_def)
next
  case (Cons a ps)
  let ?n = "piece_len a"
  let ?m = "pieces_len ps"
  have len: "pieces_len (a # ps) = ?n + ?m" by (simp add: pieces_len_def)
  have unfold: "rx (Cat (map piece_rx (a # ps) @ es)) (p, r, g) K
      = rx (piece_rx a) (p, r, g) (\<lambda>st'. rx (Cat (map piece_rx ps @ es)) st' K)"
    by simp
  show ?case
  proof (cases "?n \<le> length r \<and> conforms [a] (take ?n r)")
    case False
    then have "\<not> conforms (a # ps) (take (pieces_len (a # ps)) r)"
      unfolding len conforms_Cons_take by blast
    moreover have "rx (piece_rx a) (p, r, g) (\<lambda>st'. rx (Cat (map piece_rx ps @ es)) st' K) = None"
      unfolding rx_piece using False by (simp only: if_False)
    ultimately show ?thesis unfolding unfold by simp
  next
    case True
    obtain p' where adv: "advance ?n (p, r, g) = (p', drop ?n r, g)"
      by (simp add: advance_def)
    have step: "rx (Cat (map piece_rx (a # ps) @ es)) (p, r, g) K
            = rx (Cat (map piece_rx ps @ es)) (p', drop ?n r, g) K"
      unfolding unfold rx_piece adv using True by simp
    have adv2: "advance ?m (p', drop ?n r, g) = advance (pieces_len (a # ps)) (p, r, g)"
      using advance_advance[of ?n r ?m p g] True unfolding adv len by simp
    have cond: "(?m \<le> length (drop ?n r) \<and> conforms ps (take ?m (drop ?n r)))
       = (pieces_len (a # ps) \<le> length r \<and> conforms (a # ps) (take (pieces_len (a # ps)) r))"
      unfolding len conforms_Cons_take using True by auto
    show ?thesis unfolding step Cons.IH adv2 cond ..
  qed
qed


definition prev_at :: "char option \<Rightarrow> string \<Rightarrow> nat \<Rightarrow> char option" where
  "prev_at p r i = (if i = 0 then p else Some (r ! (i - 1)))"

lemma find_map_comp: "find P (map f xs) = map_option f (find (P \<circ> f) xs)"
  by (induction xs) simp_all

lemma prev_at_Cons: "prev_at p (c # cs) (Suc i) = prev_at (Some c) cs i"
  by (cases i) (simp_all add: prev_at_def)

lemma search_from_find:
  "search_from re p r =
     (case find (\<lambda>i. match_here re (prev_at p r i) (drop i r) \<noteq> None) [0..<Suc (length r)] of
        None \<Rightarrow> None
      | Some i \<Rightarrow> match_here re (prev_at p r i) (drop i r))"
proof (induction r arbitrary: p)
  case Nil
  show ?case by (cases "match_here re p []") (simp_all add: prev_at_def)
next
  case (Cons c cs)
  have upt: "[0..<Suc (length (c # cs))] = 0 # map Suc [0..<Suc (length cs)]"
    by (simp only: length_Cons map_Suc_upt) (rule upt_conv_Cons, simp)
  define P where "P = (\<lambda>i. match_here re (prev_at p (c # cs) i) (drop i (c # cs)) \<noteq> None)"
  define Q where "Q = (\<lambda>i. match_here re (prev_at (Some c) cs i) (drop i cs) \<noteq> None)"
  define L where "L = [0..<Suc (length cs)]"
  have PQ: "P \<circ> Suc = Q"
    by (simp add: P_def Q_def prev_at_Cons fun_eq_iff)
  have IH: "search_from re (Some c) cs =
      (case find Q L of None \<Rightarrow> None
       | Some i \<Rightarrow> match_here re (prev_at (Some c) cs i) (drop i cs))"
    unfolding Q_def L_def by (rule Cons.IH)
  show ?case
  proof (cases "match_here re p (c # cs)")
    case (Some m)
    then have "P 0" by (simp add: P_def prev_at_def)
    then have "find P (0 # map Suc L) = Some 0" by simp
    then show ?thesis
      unfolding upt L_def[symmetric] P_def[symmetric] using Some
      by (simp add: prev_at_def)
  next
    case None
    then have "\<not> P 0" by (simp add: P_def prev_at_def)
    then have f: "find P (0 # map Suc L) = map_option Suc (find Q L)"
      by (simp add: find_map_comp PQ)
    have s: "search_from re p (c # cs) = search_from re (Some c) cs"
      using None by simp
    show ?thesis
      unfolding upt L_def[symmetric] P_def[symmetric] f s IH
      by (cases "find Q L") (simp_all add: prev_at_Cons)
  qed
qed


lemma isdigit_isword: "isdigit c \<Longrightarrow> isword c"
  by (simp add: isdigit_def isword_def Let_def)

lemma conforms_Digits_hd:
  "conforms (Digits (Suc n) # ps) s \<Longrightarrow> s \<noteq> [] \<and> isdigit (hd s)"
  by (cases s) simp_all

lemma conforms_Digits_last:
  "conforms ps s \<Longrightarrow> ps \<noteq> [] \<Longrightarrow> last ps = Digits (Suc n) \<Longrightarrow> s \<noteq> [] \<and> isdigit (last s)"
proof (induction ps arbitrary: s)
  case Nil
  then show ?case by simp
next
  case (Cons a ps)
  show ?case
  proof (cases "ps = []")
    case True
    from Cons.prems(3) True have a: "a = Digits (Suc n)" by simp
    from Cons.prems(1) have c: "conforms [Digits (Suc n)] s" unfolding a True .
    then have l: "length s = Suc n" by simp
    then have "take (Suc n) s = s" by simp
    with c have d: "list_all isdigit s" by (simp del: take_all)
    from l have ne: "s \<noteq> []" by auto
    with d show ?thesis by (simp add: list_all_iff)
  next
    case False
    with Cons.prems have lp: "last ps = Digits (Suc n)" by simp
    from Cons.prems(1) have len: "piece_len a \<le> length s"
      and rest: "conforms ps (drop (piece_len a) s)"
      using conforms_Cons[of a ps s] by blast+
    note ih = Cons.IH[OF rest False lp]
    from ih have ne: "drop (piece_len a) s \<noteq> []" by (rule conjunct1)
    from ih have dl: "isdigit (last (drop (piece_len a) s))" by (rule conjunct2)
    from ne have lt: "piece_len a < length s" by simp
    from dl last_drop[OF lt] have "isdigit (last s)" by simp
    with lt show ?thesis by auto
  qed
qed

definition case_number_pieces :: "piece list" where
  "case_number_pieces =
     [Digits 7, Sep CHR ''-'', Digits 2, Sep CHR ''.'', Digits 4, Sep CHR ''.'',
      Digits 1, Sep CHR ''.'', Digits 2, Sep CHR ''.'', Digits 4]"

lemma case_number_pieces_len: "pieces_len case_number_pieces = 25"
  by (simp add: case_number_pieces_def pieces_len_def)

lemma PROCESS_NUMBER_RE_pieces:
  "PROCESS_NUMBER_RE = Cat (WordB # map piece_rx case_number_pieces @ [WordB])"
  by (simp add: PROCESS_NUMBER_RE_def case_number_pieces_def)

lemma case_number_form_pieces: "case_number_form s = conforms case_number_pieces s"
  by (simp only: case_number_form_def case_number_pieces_def)

lemma case_number_form_facts:
  assumes "case_number_form (take 25 r)"
  shows "25 \<le> length r" and "r \<noteq> []" and "isword (hd r)" and "isword (r ! 24)"
proof -
  have c: "conforms case_number_pieces (take 25 r)"
    using assms by (simp only: case_number_form_pieces)
  from conforms_length[OF c] have "length (take 25 r) = 25"
    by (simp only: case_number_pieces_len)
  then show len: "25 \<le> length r" by (simp add: min_def split: if_splits)
  then show "r \<noteq> []" by auto
  have "isdigit (hd (take 25 r))"
    using conforms_Digits_hd[of 6 "tl case_number_pieces" "take 25 r"] c
    by (simp add: case_number_pieces_def)
  then show "isword (hd r)" using len by (cases r) (simp_all add: isdigit_isword)
  have "isdigit (last (take 25 r))"
    using conforms_Digits_last[OF c, of 3] by (simp add: case_number_pieces_def)
  moreover have "last (take 25 r) = r ! 24"
  proof -
    have "take 25 r \<noteq> []" using len by auto
    then have "last (take 25 r) = take 25 r ! (length (take 25 r) - 1)"
      by (rule last_conv_nth)
    also have "length (take 25 r) = 25" using len by simp
    finally show ?thesis by simp
  qed
  ultimately show "isword (r ! 24)" by (simp add: isdigit_isword)
qed

definition starts_case_number :: "char option \<Rightarrow> string \<Rightarrow> bool" where
  "starts_case_number p r =
     (\<not> (case p of None \<Rightarrow> False | Some c \<Rightarrow> isword c) \<and> case_number_form (take 25 r)
        \<and> \<not> (case drop 25 r of [] \<Rightarrow> False | c # cs \<Rightarrow> isword c))"

lemma match_here_PROCESS_NUMBER_RE:
  "match_here PROCESS_NUMBER_RE p r =
     (if starts_case_number p r then Some \<lparr>whole = take 25 r, groups = []\<rparr> else None)"
proof (cases "case_number_form (take 25 r)")
  case False
  then have "\<not> conforms case_number_pieces (take (pieces_len case_number_pieces) r)"
    by (simp add: case_number_form_pieces case_number_pieces_len)
  then have "rx (Cat (map piece_rx case_number_pieces @ [WordB])) (p, r, []) Some = None"
    by (simp only: rx_pieces if_False simp_thms)
  then have "rx PROCESS_NUMBER_RE (p, r, []) Some = None"
    by (simp only: PROCESS_NUMBER_RE_pieces rx.simps) simp
  with False show ?thesis by (simp add: match_here_def starts_case_number_def)
next
  case True
  note f = case_number_form_facts[OF True]
  have c: "pieces_len case_number_pieces \<le> length r
           \<and> conforms case_number_pieces (take (pieces_len case_number_pieces) r)"
    using True f(1) by (simp only: case_number_form_pieces case_number_pieces_len)
  have adv: "advance 25 (p, r, []) = (Some (r ! 24), drop 25 r, [])"
    by (simp add: advance_def)
  have inner: "rx (Cat (map piece_rx case_number_pieces @ [WordB])) (p, r, []) Some
      = rx (Cat [WordB]) (Some (r ! 24), drop 25 r, []) Some"
    using c by (simp only: rx_pieces if_True case_number_pieces_len adv simp_thms)
  have last: "rx (Cat [WordB]) (Some (r ! 24), drop 25 r, []) Some
      = (if \<not> (case drop 25 r of [] \<Rightarrow> False | c # cs \<Rightarrow> isword c)
         then Some (Some (r ! 24), drop 25 r, []) else None)"
    using f(4) by (simp split: list.splits)
  have first: "rx PROCESS_NUMBER_RE (p, r, []) Some
      = (if \<not> (case p of None \<Rightarrow> False | Some c \<Rightarrow> isword c)
         then rx (Cat (map piece_rx case_number_pieces @ [WordB])) (p, r, []) Some else None)"
    using f(2,3) by (cases r) (simp_all only: PROCESS_NUMBER_RE_pieces rx.simps, simp_all)
  show ?thesis
    unfolding match_here_def first inner last starts_case_number_def
    using True f(1) by simp
qed


lemma case_drop_nth:
  "(case drop n xs of [] \<Rightarrow> False | c # cs \<Rightarrow> P c) = (n < length xs \<and> P (xs ! n))"
proof (cases "n < length xs")
  case True
  then have "drop n xs = xs ! n # drop (Suc n) xs" by (rule Cons_nth_drop_Suc[symmetric])
  with True show ?thesis by simp
next
  case False
  then show ?thesis by simp
qed

lemma starts_case_number_delimited:
  "starts_case_number (prev_at None text i) (drop i text) = delimited_case_number_at text i"
proof -
  have a: "(case prev_at None text i of None \<Rightarrow> False | Some c \<Rightarrow> isword c) = word_before text i"
    by (simp add: prev_at_def word_before_def)
  have b: "(case drop 25 (drop i text) of [] \<Rightarrow> False | c # cs \<Rightarrow> isword c)
             = word_after text (i + 25)"
    by (simp only: drop_drop case_drop_nth word_after_def add.commute[of 25 i])
  show ?thesis
    unfolding starts_case_number_def delimited_case_number_at_def a b by blast
qed

lemma find_upt_Suc: "\<not> P n \<Longrightarrow> find P [0..<Suc n] = find P [0..<n]"
proof -
  assume n: "\<not> P n"
  have "find P (xs @ [n]) = find P xs" for xs
    using n by (induction xs) simp_all
  then show ?thesis by simp
qed

lemma not_delimited_at_end: "\<not> delimited_case_number_at text (length text)"
proof
  assume "delimited_case_number_at text (length text)"
  then have "case_number_form (take 25 (drop (length text) text))"
    by (simp only: delimited_case_number_at_def)
  from case_number_form_facts(2)[OF this] show False by simp
qed

text \<open>
  Claim C4, as amended. For every input text, case-number parsing returns verbatim the
  first substring that has the canonical format (7 digits, \<^verbatim>\<open>-\<close>, 2 digits, \<^verbatim>\<open>.\<close>,
  4 digits, \<^verbatim>\<open>.\<close>, 1 digit, \<^verbatim>\<open>.\<close>, 2 digits, \<^verbatim>\<open>.\<close>, 4 digits) and is neither
  preceded nor followed by a word character; when the text has no such substring it
  raises \<^verbatim>\<open>BuildDbError\<close> with the case-number-not-found message.
\<close>

theorem parse_case_number_first_delimited:
  "parse_case_number text =
     (case find (delimited_case_number_at text) [0..<length text] of
        None \<Rightarrow> Inl (BuildDbError case_number_not_found)
      | Some i \<Rightarrow> Inr (take 25 (drop i text)))"
proof -
  have P: "(\<lambda>i. match_here PROCESS_NUMBER_RE (prev_at None text i) (drop i text) \<noteq> None)
             = delimited_case_number_at text"
    by (simp add: match_here_PROCESS_NUMBER_RE starts_case_number_delimited fun_eq_iff)
  have "search PROCESS_NUMBER_RE text =
      (case find (delimited_case_number_at text) [0..<Suc (length text)] of
         None \<Rightarrow> None
       | Some i \<Rightarrow> match_here PROCESS_NUMBER_RE (prev_at None text i) (drop i text))"
    unfolding search_def search_from_find P ..
  also have "find (delimited_case_number_at text) [0..<Suc (length text)]
               = find (delimited_case_number_at text) [0..<length text]"
    by (rule find_upt_Suc) (rule not_delimited_at_end)
  finally have s: "search PROCESS_NUMBER_RE text =
      (case find (delimited_case_number_at text) [0..<length text] of
         None \<Rightarrow> None
       | Some i \<Rightarrow> match_here PROCESS_NUMBER_RE (prev_at None text i) (drop i text))" .
  show ?thesis
  proof (cases "find (delimited_case_number_at text) [0..<length text]")
    case None
    with s show ?thesis by (simp add: parse_case_number_def)
  next
    case (Some i)
    then have "delimited_case_number_at text i" by (auto simp: find_Some_iff)
    then have "starts_case_number (prev_at None text i) (drop i text)"
      by (simp only: starts_case_number_delimited)
    with s Some show ?thesis
      by (simp add: parse_case_number_def match_here_PROCESS_NUMBER_RE)
  qed
qed

theorem parse_case_number_first_delimited_witness:
  "(case find (delimited_case_number_at
          ''Autos 1234567-89.2024.1.23.4567 e 7654321-00.2023.8.26.0001'')
        [0..<length ''Autos 1234567-89.2024.1.23.4567 e 7654321-00.2023.8.26.0001''] of
      None \<Rightarrow> Inl (BuildDbError case_number_not_found)
    | Some i \<Rightarrow>
        Inr (take 25 (drop i ''Autos 1234567-89.2024.1.23.4567 e 7654321-00.2023.8.26.0001'')))
   = Inr ''1234567-89.2024.1.23.4567''"
proof -
  have "parse_case_number ''Autos 1234567-89.2024.1.23.4567 e 7654321-00.2023.8.26.0001''
     = Inr ''1234567-89.2024.1.23.4567''"
    by code_simp
  then show ?thesis
    unfolding parse_case_number_first_delimited
      [of "''Autos 1234567-89.2024.1.23.4567 e 7654321-00.2023.8.26.0001''"] .
qed

text \<open>
  Claim C4 as stated fails: a text can hold a substring of the canonical format and
  still raise (eight digits before the dash), and the substring returned need not be the
  first of that format (the first one directly follows a letter).
\<close>

theorem parse_case_number_undelimited_counterexample:
  "case_number_form (take 25 (drop 1 ''12345678-89.2024.1.23.4567''))
   \<and> parse_case_number ''12345678-89.2024.1.23.4567'' = Inl (BuildDbError case_number_not_found)
   \<and> case_number_form (take 25 (drop 1 ''A1234567-89.2024.1.23.4567 7654321-00.2023.8.26.0001''))
   \<and> parse_case_number ''A1234567-89.2024.1.23.4567 7654321-00.2023.8.26.0001''
       = Inr ''7654321-00.2023.8.26.0001''"
  by code_simp


subsection \<open>Events\<close>

text \<open>\<^verbatim>\<open>pattern.finditer(text)\<close>: the matches from left to right, each search starting
  where the previous match ended. A match that consumes nothing is followed by a step of
  one character; the two patterns scanned here begin with a date of ten characters, so
  none of their matches is empty and that branch is never taken for them.\<close>

function scan :: "regex \<Rightarrow> char option \<Rightarrow> string \<Rightarrow> rmatch list" where
  "scan re p r =
     (case rx re (p, r, []) Some of
        Some (p', r', g) \<Rightarrow>
          (if length r' < length r
           then \<lparr>whole = take (length r - length r') r, groups = g\<rparr> # scan re p' r'
           else \<lparr>whole = [], groups = g\<rparr> #
                  (case r of [] \<Rightarrow> [] | c # cs \<Rightarrow> scan re (Some c) cs))
      | None \<Rightarrow> (case r of [] \<Rightarrow> [] | c # cs \<Rightarrow> scan re (Some c) cs))"
  by pat_completeness auto
termination
  by (relation "measure (\<lambda>(re, p, r). length r)") auto

declare scan.simps [simp del]

definition finditer :: "regex \<Rightarrow> string \<Rightarrow> rmatch list" where
  "finditer re text = scan re None text"

text \<open>\<^verbatim>\<open>m.group(name)\<close>. Both groups of either event pattern take part in every match
  of it, so the default is never returned for them.\<close>

definition group :: "rmatch \<Rightarrow> string \<Rightarrow> string" where
  "group m n = (case map_of (groups m) n of Some s \<Rightarrow> s | None \<Rightarrow> [])"

text \<open>The date part \<^verbatim>\<open>\d{2}/\d{2}/\d{4}\<close> shared by the two event patterns.\<close>

definition DATE :: regex where
  "DATE = Cat [Times 2 Digit, Chr (Lit CHR ''/''), Times 2 Digit, Chr (Lit CHR ''/''),
               Times 4 Digit]"

text \<open>\<^verbatim>\<open>MOVEMENT_RE = ^(?P<date>\d{2}/\d{2}/\d{4})\s+-\s+(?P<description>.+)$\<close>
  with \<^verbatim>\<open>re.MULTILINE\<close>.\<close>

definition MOVEMENT_RE :: regex where
  "MOVEMENT_RE =
     Cat [Bol, Group ''date'' DATE, Plus Space, Chr (Lit CHR ''-''), Plus Space,
          Group ''description'' (Plus AnyChar), Eol]"

text \<open>The fallback pattern \<^verbatim>\<open>date_re = ^(\d{2}/\d{2}/\d{4})\s+(.*)$\<close> with
  \<^verbatim>\<open>re.MULTILINE\<close>; its groups 1 and 2 are named by their numbers.\<close>

definition date_re :: regex where
  "date_re = Cat [Bol, Group ''1'' DATE, Plus Space, Group ''2'' (Star AnyChar), Eol]"

text \<open>\<^verbatim>\<open>_parse_events\<close>\<close>

definition parse_events :: "string \<Rightarrow> (string \<times> string) list" where
  "parse_events text =
     (let events = map (\<lambda>m. (group m ''date'', strip (group m ''description'')))
                       (finditer MOVEMENT_RE text)
      in if events \<noteq> [] then events
         else map (\<lambda>m. (group m ''1'', strip (group m ''2''))) (finditer date_re text))"


text \<open>The lines of a text as the anchors \<^verbatim>\<open>^\<close> and \<^verbatim>\<open>$\<close> see them: the pieces
  between newline characters.\<close>

function split_nl :: "string \<Rightarrow> string list" where
  "split_nl s =
     takeWhile (\<lambda>c. c \<noteq> newline) s #
       (case dropWhile (\<lambda>c. c \<noteq> newline) s of
          [] \<Rightarrow> []
        | c # cs \<Rightarrow> split_nl cs)"
  by pat_completeness auto
termination
proof (relation "measure length")
  show "wf (measure length)" by simp
next
  fix s :: string and c cs
  assume a: "dropWhile (\<lambda>c. c \<noteq> newline) s = c # cs"
  have "length (dropWhile (\<lambda>c. c \<noteq> newline) s) \<le> length s"
    by (rule length_dropWhile_le)
  with a show "(cs, s) \<in> measure length" by simp
qed

declare split_nl.simps [simp del]

text \<open>The two line forms in the words of the specification. A date is two digits, a
  slash, two digits, a slash and four digits. A dash line is a date, whitespace, a dash,
  whitespace and a description that starts at the first character that is not
  whitespace; a bare-date line is a date, whitespace and a description. The
  description is returned trimmed.\<close>

definition date_form :: "string \<Rightarrow> bool" where
  "date_form s = conforms [Digits 2, Sep CHR ''/'', Digits 2, Sep CHR ''/'', Digits 4] s"

definition dash_line :: "string \<Rightarrow> (string \<times> string) option" where
  "dash_line L =
     (let a = drop 10 L; b = dropWhile isspace a; c = tl b; e = dropWhile isspace c
      in if date_form (take 10 L) \<and> b \<noteq> a \<and> b \<noteq> [] \<and> hd b = CHR ''-'' \<and> e \<noteq> c \<and> e \<noteq> []
         then Some (take 10 L, strip e) else None)"

definition bare_line :: "string \<Rightarrow> (string \<times> string) option" where
  "bare_line L =
     (let a = drop 10 L; b = dropWhile isspace a
      in if date_form (take 10 L) \<and> b \<noteq> a then Some (take 10 L, strip b) else None)"

text \<open>A line that is a date followed by whitespace only, or a date, whitespace and a
  dash followed by whitespace only. On such a line the whitespace run of a pattern
  reaches the end of the line, where \<^verbatim>\<open>\s+\<close> goes on into the next line.\<close>

definition blank_after_date :: "string \<Rightarrow> bool" where
  "blank_after_date L =
     (date_form (take 10 L) \<and>
      (let a = drop 10 L; b = dropWhile isspace a
       in b = [] \<or> (b \<noteq> a \<and> hd b = CHR ''-'' \<and> list_all isspace (tl b))))"

text \<open>The groups a match of either pattern captures on a line.\<close>

definition lm_dash :: "string \<Rightarrow> (string \<times> string) list option" where
  "lm_dash L =
     (let a = drop 10 L; b = dropWhile isspace a; c = tl b; e = dropWhile isspace c
      in if date_form (take 10 L) \<and> b \<noteq> a \<and> b \<noteq> [] \<and> hd b = CHR ''-'' \<and> e \<noteq> c \<and> e \<noteq> []
         then Some [(''date'', take 10 L), (''description'', e)] else None)"

definition lm_bare :: "string \<Rightarrow> (string \<times> string) list option" where
  "lm_bare L =
     (let a = drop 10 L; b = dropWhile isspace a
      in if date_form (take 10 L) \<and> b \<noteq> a then Some [(''1'', take 10 L), (''2'', b)] else None)"

definition date_pieces :: "piece list" where
  "date_pieces = [Digits 2, Sep CHR ''/'', Digits 2, Sep CHR ''/'', Digits 4]"

text \<open>A text with dash lines and a bare-date line.\<close>

definition events_example :: string where
  "events_example =
     ''Movimentos'' @ [newline] @ ''01/02/2024 - Juntada de peticao '' @ [newline]
       @ ''03/04/2024   Conclusos'' @ [newline] @ ''05/06/2024 - Sentenca''"

subsection \<open>Properties of event parsing\<close>

lemma try_down_top:
  "(\<And>j. 0 < j \<Longrightarrow> j < n \<Longrightarrow> f j = None) \<Longrightarrow> try_down n f = (if n = 0 then None else f n)"
proof (induction n)
  case 0
  show ?case by simp
next
  case (Suc n)
  have "try_down n f = (if n = 0 then None else f n)"
    by (rule Suc.IH) (simp add: Suc.prems)
  moreover have "n \<noteq> 0 \<Longrightarrow> f n = None" by (rule Suc.prems) simp_all
  ultimately have "try_down n f = None" by simp
  then show ?case by (simp split: option.splits)
qed

lemma try_down_first: "f n \<noteq> None \<Longrightarrow> 0 < n \<Longrightarrow> try_down n f = f n"
  by (cases n) (auto split: option.splits)

lemma rx_Bol_fail: "c \<noteq> newline \<Longrightarrow> rx (Cat (Bol # es)) (Some c, r, g) K = None"
  by simp

lemma scan_skip_line:
  assumes "newline \<notin> set L" and "c \<noteq> newline"
  shows "scan (Cat (Bol # es)) (Some c) (L @ rest) = scan (Cat (Bol # es)) (Some (last (c # L))) rest"
  using assms
proof (induction L arbitrary: c)
  case Nil
  show ?case by simp
next
  case (Cons d L)
  have "scan (Cat (Bol # es)) (Some c) ((d # L) @ rest) = scan (Cat (Bol # es)) (Some d) (L @ rest)"
    using Cons.prems(2) by (subst scan.simps) simp
  also have "\<dots> = scan (Cat (Bol # es)) (Some (last (d # L))) rest"
    using Cons.prems(1) by (intro Cons.IH) auto
  finally show ?case by simp
qed

lemma scan_after_line:
  assumes "c \<noteq> newline" and "rest = [] \<or> hd rest = newline"
  shows "scan (Cat (Bol # es)) (Some c) rest
           = (case rest of [] \<Rightarrow> [] | d # ds \<Rightarrow> scan (Cat (Bol # es)) (Some newline) ds)"
proof (cases rest)
  case Nil
  then show ?thesis using assms(1) by (subst scan.simps) simp
next
  case (Cons d ds)
  with assms(2) have "d = newline" by simp
  with Cons show ?thesis using assms(1) by (subst scan.simps) simp
qed


lemma scan_lines:
  assumes line: "\<And>p L rest. p = None \<or> p = Some newline \<Longrightarrow> newline \<notin> set L \<Longrightarrow> ok L
             \<Longrightarrow> rest = [] \<or> hd rest = newline
             \<Longrightarrow> rx (Cat (Bol # es)) (p, L @ rest, []) Some
                   = (case lm L of None \<Rightarrow> None | Some g \<Rightarrow> Some (Some (last L), rest, g))"
    and ne: "\<And>L g. lm L = Some g \<Longrightarrow> L \<noteq> []"
  shows "list_all ok (split_nl s) \<Longrightarrow> p = None \<or> p = Some newline
           \<Longrightarrow> scan (Cat (Bol # es)) p s
                 = List.map_filter (\<lambda>L. map_option (\<lambda>g. \<lparr>whole = L, groups = g\<rparr>) (lm L))
                     (split_nl s)"
proof (induction s arbitrary: p rule: split_nl.induct)
  case (1 s)
  let ?re = "Cat (Bol # es)"
  let ?f = "\<lambda>L. map_option (\<lambda>g. \<lparr>whole = L, groups = g\<rparr>) (lm L)"
  define L where "L = takeWhile (\<lambda>c. c \<noteq> newline) s"
  define rest where "rest = dropWhile (\<lambda>c. c \<noteq> newline) s"
  have s: "s = L @ rest" by (simp add: L_def rest_def)
  have nonl: "newline \<notin> set L" by (auto simp: L_def dest: set_takeWhileD)
  have rest: "rest = [] \<or> hd rest = newline"
    using hd_dropWhile[of "\<lambda>c. c \<noteq> newline" s] by (auto simp: rest_def)
  have sp: "split_nl s = L # (case rest of [] \<Rightarrow> [] | c # cs \<Rightarrow> split_nl cs)"
    by (subst split_nl.simps) (simp add: L_def rest_def)
  from "1.prems"(1) have okL: "ok L"
    and oks: "list_all ok (case rest of [] \<Rightarrow> [] | c # cs \<Rightarrow> split_nl cs)"
    by (simp_all add: sp)
  have tail: "(case rest of [] \<Rightarrow> [] | d # ds \<Rightarrow> scan ?re (Some newline) ds)
      = List.map_filter ?f (case rest of [] \<Rightarrow> [] | c # cs \<Rightarrow> split_nl cs)"
  proof (cases rest)
    case Nil
    then show ?thesis by (simp add: map_filter_simps)
  next
    case (Cons d ds)
    have "scan ?re (Some newline) ds = List.map_filter ?f (split_nl ds)"
      using oks Cons by (intro "1.IH"[of d ds]) (simp_all add: rest_def)
    with Cons show ?thesis by simp
  qed
  have m: "rx ?re (p, L @ rest, []) Some
             = (case lm L of None \<Rightarrow> None | Some g \<Rightarrow> Some (Some (last L), rest, g))"
    by (rule line[OF "1.prems"(2) nonl okL rest])
  show ?case
  proof (cases "lm L")
    case (Some g)
    then have Lne: "L \<noteq> []" by (rule ne)
    from last_in_set[OF Lne] nonl have lastL: "last L \<noteq> newline" by metis
    have "scan ?re p (L @ rest) = \<lparr>whole = L, groups = g\<rparr> # scan ?re (Some (last L)) rest"
      using Some Lne by (subst scan.simps) (simp add: m del: rx.simps)
    also have "scan ?re (Some (last L)) rest
                 = (case rest of [] \<Rightarrow> [] | d # ds \<Rightarrow> scan ?re (Some newline) ds)"
      by (rule scan_after_line[OF lastL rest])
    finally show ?thesis
      unfolding s[symmetric] tail sp using Some by (simp add: map_filter_simps)
  next
    case None
    have "scan ?re p (L @ rest) = (case rest of [] \<Rightarrow> [] | d # ds \<Rightarrow> scan ?re (Some newline) ds)"
    proof (cases L)
      case Nil
      show ?thesis
      proof (cases rest)
        case Nil
        with \<open>L = []\<close> None m show ?thesis by (subst scan.simps) (simp del: rx.simps)
      next
        case (Cons d ds)
        with rest have "d = newline" by simp
        with Cons \<open>L = []\<close> None m show ?thesis by (subst scan.simps) (simp del: rx.simps)
      qed
    next
      case (Cons c L')
      with nonl have c: "c \<noteq> newline" and nonl': "newline \<notin> set L'" by auto
      have "scan ?re p (L @ rest) = scan ?re (Some c) (L' @ rest)"
        using None m Cons by (subst scan.simps) (simp del: rx.simps)
      also have "\<dots> = scan ?re (Some (last (c # L'))) rest"
        by (rule scan_skip_line[OF nonl' c])
      also have "\<dots> = (case rest of [] \<Rightarrow> [] | d # ds \<Rightarrow> scan ?re (Some newline) ds)"
      proof (rule scan_after_line[OF _ rest])
        have "last (c # L') \<in> set (c # L')" by (rule last_in_set) simp
        then show "last (c # L') \<noteq> newline"
          using c nonl' by (metis set_ConsD)
      qed
      finally show ?thesis .
    qed
    then show ?thesis
      unfolding s[symmetric] tail sp using None by (simp add: map_filter_simps)
  qed
qed


lemma date_pieces_len: "pieces_len date_pieces = 10"
  by (simp add: date_pieces_def pieces_len_def)

lemma DATE_pieces: "DATE = Cat (map piece_rx date_pieces @ [])"
  by (simp add: DATE_def date_pieces_def)

lemma date_form_pieces: "date_form s = conforms date_pieces s"
  by (simp only: date_form_def date_pieces_def)

lemma date_form_length: "date_form s \<Longrightarrow> length s = 10"
  using conforms_length[of date_pieces s] by (simp only: date_form_pieces date_pieces_len)

lemma conforms_no_newline:
  "conforms ps s \<Longrightarrow> Sep newline \<notin> set ps \<Longrightarrow> newline \<notin> set s"
proof (induction ps arbitrary: s)
  case Nil
  then show ?case by simp
next
  case (Cons a ps)
  from Cons.prems(1) have len: "piece_len a \<le> length s"
    and hd: "conforms [a] (take (piece_len a) s)"
    and tl: "conforms ps (drop (piece_len a) s)"
    using conforms_Cons[of a ps s] by blast+
  from Cons.prems(2) have "Sep newline \<notin> set ps" by simp
  with Cons.IH[OF tl] have t: "newline \<notin> set (drop (piece_len a) s)" by simp
  have h: "newline \<notin> set (take (piece_len a) s)"
  proof (cases a)
    case (Digits n)
    with hd have "list_all isdigit (take n s)" by (simp add: min_def split: if_splits)
    moreover have "\<not> isdigit newline" by (simp add: isdigit_def newline_def)
    ultimately show ?thesis using Digits by (auto simp: list_all_iff)
  next
    case (Sep c)
    with Cons.prems(2) have "c \<noteq> newline" by auto
    with hd Sep show ?thesis by (cases s) auto
  qed
  have "set s = set (take (piece_len a) s) \<union> set (drop (piece_len a) s)"
    by (metis append_take_drop_id set_append)
  with h t show ?case by simp
qed

lemma date_form_no_newline: "date_form s \<Longrightarrow> newline \<notin> set s"
proof -
  assume "date_form s"
  then have "conforms date_pieces s" by (simp only: date_form_pieces)
  moreover have "Sep newline \<notin> set date_pieces"
    by (simp add: date_pieces_def newline_def)
  ultimately show ?thesis by (rule conforms_no_newline)
qed

lemma date_form_take_line:
  assumes "newline \<notin> set L" and "rest = [] \<or> hd rest = newline"
  shows "date_form (take 10 (L @ rest)) \<longleftrightarrow> date_form (take 10 L)"
proof (cases "10 \<le> length L \<or> rest = []")
  case True
  then show ?thesis by auto
next
  case False
  then have short: "length L < 10" and "rest \<noteq> []" by auto
  with assms(2) obtain ds where r: "rest = newline # ds" by (cases rest) auto
  from short obtain m where m: "10 - length L = Suc m" by (cases "10 - length L") auto
  have "newline \<in> set (take 10 (L @ rest))"
    by (simp add: r m)
  then have "\<not> date_form (take 10 (L @ rest))" using date_form_no_newline by blast
  moreover have "\<not> date_form (take 10 L)"
    using date_form_length[of "take 10 L"] short by auto
  ultimately show ?thesis by simp
qed

lemma rx_Cat_Bol:
  "p = None \<or> p = Some newline \<Longrightarrow> rx (Cat (Bol # es)) (p, r, g) K = rx (Cat es) (p, r, g) K"
  by auto

lemma rx_Cat_date:
  "rx (Cat (Group n DATE # es)) (p, r, []) K =
     (if date_form (take 10 r)
      then rx (Cat es) (Some (r ! 9), drop 10 r, [(n, take 10 r)]) K else None)"
proof (cases "date_form (take 10 r)")
  case True
  from date_form_length[OF True] have len: "10 \<le> length r" by (simp add: min_def split: if_splits)
  have adv: "advance 10 (p, r, []) = (Some (r ! 9), drop 10 r, [])"
    by (simp add: advance_def)
  have "rx (Cat (Group n DATE # es)) (p, r, []) K =
        rx DATE (p, r, [])
          (\<lambda>(p', r', g'). rx (Cat es) (p', r', g' @ [(n, take (length r - length r') r)]) K)"
    by simp
  also have "\<dots> = rx (Cat es) (Some (r ! 9), drop 10 r, [(n, take 10 r)]) K"
    unfolding DATE_pieces rx_pieces date_pieces_len adv
    using True len by (simp add: date_form_pieces)
  finally show ?thesis using True by simp
next
  case False
  have "rx (Cat (Group n DATE # es)) (p, r, []) K =
        rx DATE (p, r, [])
          (\<lambda>(p', r', g'). rx (Cat es) (p', r', g' @ [(n, take (length r - length r') r)]) K)"
    by simp
  also have "\<dots> = None"
    unfolding DATE_pieces rx_pieces date_pieces_len
    using False by (simp add: date_form_pieces)
  finally show ?thesis using False by simp
qed

lemma advance_run:
  "advance (run_length k r) (p, r, g) =
     (if run_length k r = 0 then p else Some (r ! (run_length k r - 1)), dropWhile (cmatch k) r, g)"
  by (simp add: advance_def run_length_def dropWhile_eq_drop)

lemma rx_Cat_Plus_zero:
  "run_length k r = 0 \<Longrightarrow> rx (Cat (Plus k # es)) (p, r, g) K = None"
  by simp

lemma rx_Cat_Plus_first:
  assumes "0 < run_length k r"
    and "rx (Cat es) (advance (run_length k r) (p, r, g)) K \<noteq> None"
  shows "rx (Cat (Plus k # es)) (p, r, g) K = rx (Cat es) (advance (run_length k r) (p, r, g)) K"
proof -
  have "rx (Cat (Plus k # es)) (p, r, g) K
          = try_down (run_length k r) (\<lambda>j. rx (Cat es) (advance j (p, r, g)) K)"
    by simp
  also have "\<dots> = rx (Cat es) (advance (run_length k r) (p, r, g)) K"
    by (rule try_down_first) (use assms in simp_all)
  finally show ?thesis .
qed

lemma rx_Cat_Lit:
  "rx (Cat (Chr (Lit c) # es)) (q, d, g) K =
     (case d of [] \<Rightarrow> None | x # cs \<Rightarrow> if x = c then rx (Cat es) (Some c, cs, g) K else None)"
  by (cases d) auto

lemma rx_Cat_Plus_Lit:
  assumes "\<not> cmatch k c"
  shows "rx (Cat (Plus k # Chr (Lit c) # es)) (p, r, g) K =
     (if run_length k r = 0 then None
      else (case dropWhile (cmatch k) r of
              [] \<Rightarrow> None
            | x # cs \<Rightarrow> if x = c then rx (Cat es) (Some c, cs, g) K else None))"
proof -
  let ?f = "\<lambda>j. rx (Cat (Chr (Lit c) # es)) (advance j (p, r, g)) K"
  have unf: "rx (Cat (Plus k # Chr (Lit c) # es)) (p, r, g) K = try_down (run_length k r) ?f"
    by simp
  have low: "?f j = None" if "0 < j" "j < run_length k r" for j
  proof -
    from that(2) have jl: "j < length (takeWhile (cmatch k) r)" by (simp add: run_length_def)
    then have "takeWhile (cmatch k) r ! j \<in> set (takeWhile (cmatch k) r)" by (rule nth_mem)
    then have "cmatch k (takeWhile (cmatch k) r ! j)" by (rule set_takeWhileD[THEN conjunct2])
    with jl have m: "cmatch k (r ! j)" by (simp add: takeWhile_nth)
    from jl have "j < length r" using length_takeWhile_le[of "cmatch k" r] by simp
    then have d: "drop j r = r ! j # drop (Suc j) r" by (rule Cons_nth_drop_Suc[symmetric])
    have "r ! j \<noteq> c" using m assms by auto
    then show ?thesis by (simp add: advance_def d)
  qed
  have "try_down (run_length k r) ?f = (if run_length k r = 0 then None else ?f (run_length k r))"
    by (rule try_down_top) (rule low)
  also have "?f (run_length k r) =
      (case dropWhile (cmatch k) r of
              [] \<Rightarrow> None
            | x # cs \<Rightarrow> if x = c then rx (Cat es) (Some c, cs, g) K else None)"
    unfolding advance_run rx_Cat_Lit ..
  finally show ?thesis unfolding unf .
qed


lemma cmatch_Space: "cmatch Space = isspace"
  by (rule ext) simp

lemma cmatch_AnyChar: "cmatch AnyChar = (\<lambda>c. c \<noteq> newline)"
  by (rule ext) simp

lemma run_length_line:
  assumes "newline \<notin> set e" and "rest = [] \<or> hd rest = newline"
  shows "run_length AnyChar (e @ rest) = length e"
proof -
  have "takeWhile (\<lambda>c. c \<noteq> newline) (e @ rest) = e"
  proof (cases rest)
    case Nil
    with assms(1) show ?thesis by (auto simp: takeWhile_eq_all_conv)
  next
    case (Cons d ds)
    with assms(2) have "d = newline" by simp
    with Cons assms(1) show ?thesis by (auto simp: takeWhile_tail)
  qed
  then show ?thesis by (simp add: run_length_def cmatch_AnyChar)
qed

lemma advance_line:
  "e \<noteq> [] \<Longrightarrow> advance (length e) (p, e @ rest, g) = (Some (last e), rest, g)"
  by (simp add: advance_def nth_append last_conv_nth)

lemma rx_Eol_line:
  "rest = [] \<or> hd rest = newline \<Longrightarrow> rx (Cat [Eol]) (p, rest, g) Some = Some (p, rest, g)"
  by auto

lemma rx_rest_of_line_Plus:
  assumes "newline \<notin> set e" and "e \<noteq> []" and "rest = [] \<or> hd rest = newline"
  shows "rx (Cat [Group n (Plus AnyChar), Eol]) (p, e @ rest, g) Some
           = Some (Some (last e), rest, g @ [(n, e)])"
proof -
  let ?f = "\<lambda>j. (\<lambda>(p', r', g'). rx (Cat [Eol])
               (p', r', g' @ [(n, take (length (e @ rest) - length r') (e @ rest))]) Some)
             (advance j (p, e @ rest, g))"
  have top: "?f (length e) = Some (Some (last e), rest, g @ [(n, e)])"
    unfolding advance_line[OF assms(2)] using assms(3) by (simp add: rx_Eol_line del: rx.simps)
  have "rx (Cat [Group n (Plus AnyChar), Eol]) (p, e @ rest, g) Some
          = try_down (run_length AnyChar (e @ rest)) ?f"
    by simp
  also have "\<dots> = try_down (length e) ?f"
    by (simp only: run_length_line[OF assms(1,3)])
  also have "\<dots> = ?f (length e)"
    by (rule try_down_first) (use top assms(2) in simp_all)
  finally show ?thesis unfolding top .
qed

lemma rx_rest_of_line_Star:
  assumes "newline \<notin> set e" and "e \<noteq> []" and "rest = [] \<or> hd rest = newline"
  shows "rx (Cat [Group n (Star AnyChar), Eol]) (p, e @ rest, g) Some
           = Some (Some (last e), rest, g @ [(n, e)])"
proof -
  let ?f = "\<lambda>j. (\<lambda>(p', r', g'). rx (Cat [Eol])
               (p', r', g' @ [(n, take (length (e @ rest) - length r') (e @ rest))]) Some)
             (advance j (p, e @ rest, g))"
  have top: "?f (length e) = Some (Some (last e), rest, g @ [(n, e)])"
    unfolding advance_line[OF assms(2)] using assms(3) by (simp add: rx_Eol_line del: rx.simps)
  have t: "try_down (run_length AnyChar (e @ rest)) ?f = ?f (length e)"
    unfolding run_length_line[OF assms(1,3)]
    by (rule try_down_first) (use top assms(2) in simp_all)
  have "rx (Cat [Group n (Star AnyChar), Eol]) (p, e @ rest, g) Some
          = (case try_down (run_length AnyChar (e @ rest)) ?f of
               Some x \<Rightarrow> Some x
             | None \<Rightarrow> (\<lambda>(p', r', g'). rx (Cat [Eol])
                 (p', r', g' @ [(n, take (length (e @ rest) - length r') (e @ rest))]) Some)
                 (p, e @ rest, g))"
    by (simp only: rx.simps)
  also have "\<dots> = Some (Some (last e), rest, g @ [(n, e)])"
    unfolding t top by simp
  finally show ?thesis .
qed


lemma space_run_line:
  assumes "dropWhile isspace a \<noteq> []"
  shows "dropWhile (cmatch Space) (a @ rest) = dropWhile isspace a @ rest"
    and "run_length Space (a @ rest) = 0 \<longleftrightarrow> dropWhile isspace a = a"
proof -
  from assms obtain x where x: "x \<in> set a" "\<not> isspace x"
    by (auto simp: dropWhile_eq_Nil_conv)
  show "dropWhile (cmatch Space) (a @ rest) = dropWhile isspace a @ rest"
    unfolding cmatch_Space using x by (rule dropWhile_append1)
  have "takeWhile isspace (a @ rest) = takeWhile isspace a"
    using x by (rule takeWhile_append1)
  then have "run_length Space (a @ rest) = 0 \<longleftrightarrow> takeWhile isspace a = []"
    by (simp add: run_length_def cmatch_Space)
  also have "takeWhile isspace a = [] \<longleftrightarrow> dropWhile isspace a = a"
    using takeWhile_dropWhile_id[of isspace a] by (metis append_self_conv2)
  finally show "run_length Space (a @ rest) = 0 \<longleftrightarrow> dropWhile isspace a = a" .
qed

lemma dropWhile_suffix: "\<exists>pre. xs = pre @ dropWhile P xs"
  by (metis takeWhile_dropWhile_id)

lemma date_re_line:
  assumes p: "p = None \<or> p = Some newline" and nonl: "newline \<notin> set L"
    and ok: "\<not> blank_after_date L" and rest: "rest = [] \<or> hd rest = newline"
  shows "rx date_re (p, L @ rest, []) Some
           = (case lm_bare L of None \<Rightarrow> None | Some g \<Rightarrow> Some (Some (last L), rest, g))"
proof -
  define a where "a = drop 10 L"
  define b where "b = dropWhile isspace a"
  have step1: "rx date_re (p, L @ rest, []) Some =
      (if date_form (take 10 L)
       then rx (Cat [Plus Space, Group ''2'' (Star AnyChar), Eol])
              (Some ((L @ rest) ! 9), drop 10 (L @ rest), [(''1'', take 10 (L @ rest))]) Some
       else None)"
    unfolding date_re_def rx_Cat_Bol[OF p] rx_Cat_date date_form_take_line[OF nonl rest] ..
  show ?thesis
  proof (cases "date_form (take 10 L)")
    case False
    then show ?thesis unfolding step1 by (simp add: lm_bare_def)
  next
    case True
    from date_form_length[OF True] have len: "10 \<le> length L"
      by (simp add: min_def split: if_splits)
    have d: "drop 10 (L @ rest) = a @ rest" and t: "take 10 (L @ rest) = take 10 L"
      using len by (simp_all add: a_def)
    from ok True have bne: "b \<noteq> []"
      by (simp add: blank_after_date_def Let_def a_def b_def)
    note sr = space_run_line[of a rest, folded b_def, OF bne]
    have La: "L = take 10 L @ a" by (simp add: a_def)
    obtain pre where ab: "a = pre @ b" unfolding b_def using dropWhile_suffix by blast
    have lastb: "last b = last L"
      using bne by (subst La, subst ab) simp
    have nonlb: "newline \<notin> set b"
      using nonl by (subst (asm) La, subst (asm) ab) simp
    show ?thesis
    proof (cases "b = a")
      case True
      then have "run_length Space (a @ rest) = 0" using sr(2) by simp
      then have "rx (Cat [Plus Space, Group ''2'' (Star AnyChar), Eol])
              (Some ((L @ rest) ! 9), a @ rest, [(''1'', take 10 L)]) Some = None"
        by (rule rx_Cat_Plus_zero)
      with True \<open>date_form (take 10 L)\<close> show ?thesis
        unfolding step1 d t by (simp add: lm_bare_def Let_def a_def[symmetric] b_def[symmetric])
    next
      case False
      then have pos: "0 < run_length Space (a @ rest)" using sr(2) by simp
      obtain p2 where adv: "advance (run_length Space (a @ rest))
              (Some ((L @ rest) ! 9), a @ rest, [(''1'', take 10 L)])
            = (p2, b @ rest, [(''1'', take 10 L)])"
        unfolding advance_run sr(1) by simp
      have inner: "rx (Cat [Group ''2'' (Star AnyChar), Eol])
              (p2, b @ rest, [(''1'', take 10 L)]) Some
            = Some (Some (last L), rest, [(''1'', take 10 L), (''2'', b)])"
        using rx_rest_of_line_Star[OF nonlb bne rest, of "''2''" p2 "[(''1'', take 10 L)]"]
        by (simp only: lastb append.simps)
      have "rx (Cat [Plus Space, Group ''2'' (Star AnyChar), Eol])
              (Some ((L @ rest) ! 9), a @ rest, [(''1'', take 10 L)]) Some
            = Some (Some (last L), rest, [(''1'', take 10 L), (''2'', b)])"
        using rx_Cat_Plus_first[OF pos, of "[Group ''2'' (Star AnyChar), Eol]"
                "Some ((L @ rest) ! 9)" "[(''1'', take 10 L)]" Some]
        unfolding adv inner by simp
      with False \<open>date_form (take 10 L)\<close> show ?thesis
        unfolding step1 d t by (simp add: lm_bare_def Let_def a_def[symmetric] b_def[symmetric])
    qed
  qed
qed


lemma MOVEMENT_RE_line:
  assumes p: "p = None \<or> p = Some newline" and nonl: "newline \<notin> set L"
    and ok: "\<not> blank_after_date L" and rest: "rest = [] \<or> hd rest = newline"
  shows "rx MOVEMENT_RE (p, L @ rest, []) Some
           = (case lm_dash L of None \<Rightarrow> None | Some g \<Rightarrow> Some (Some (last L), rest, g))"
proof -
  define a where "a = drop 10 L"
  define b where "b = dropWhile isspace a"
  define c where "c = tl b"
  define e where "e = dropWhile isspace c"
  let ?g1 = "[(''date'', take 10 L)]"
  let ?tail = "[Plus Space, Group ''description'' (Plus AnyChar), Eol]"
  have lm: "lm_dash L =
      (if date_form (take 10 L) \<and> b \<noteq> a \<and> b \<noteq> [] \<and> hd b = CHR ''-'' \<and> e \<noteq> c \<and> e \<noteq> []
       then Some [(''date'', take 10 L), (''description'', e)] else None)"
    by (simp add: lm_dash_def Let_def a_def b_def c_def e_def)
  have nsp: "\<not> cmatch Space CHR ''-''" by (simp add: isspace_def)
  have step1: "rx MOVEMENT_RE (p, L @ rest, []) Some =
      (if date_form (take 10 L)
       then (if run_length Space (drop 10 (L @ rest)) = 0 then None
             else (case dropWhile (cmatch Space) (drop 10 (L @ rest)) of
                     [] \<Rightarrow> None
                   | x # cs \<Rightarrow>
                       if x = CHR ''-''
                       then rx (Cat ?tail) (Some CHR ''-'', cs, [(''date'', take 10 (L @ rest))]) Some
                       else None))
       else None)"
    unfolding MOVEMENT_RE_def rx_Cat_Bol[OF p] rx_Cat_date date_form_take_line[OF nonl rest]
      rx_Cat_Plus_Lit[OF nsp] ..
  show ?thesis
  proof (cases "date_form (take 10 L)")
    case False
    then show ?thesis unfolding step1 lm by simp
  next
    case True
    from date_form_length[OF True] have len: "10 \<le> length L"
      by (simp add: min_def split: if_splits)
    have d: "drop 10 (L @ rest) = a @ rest" and t: "take 10 (L @ rest) = take 10 L"
      using len by (simp_all add: a_def)
    from ok True have bne: "b \<noteq> []"
      by (simp add: blank_after_date_def Let_def a_def b_def)
    note sr = space_run_line[of a rest, folded b_def, OF bne]
    have La: "L = take 10 L @ a" by (simp add: a_def)
    obtain pre where ab: "a = pre @ b" unfolding b_def using dropWhile_suffix by blast
    from bne obtain x where bx: "b = x # c" unfolding c_def by (cases b) simp_all
    have step2: "rx MOVEMENT_RE (p, L @ rest, []) Some =
      (if b = a then None
       else if x = CHR ''-'' then rx (Cat ?tail) (Some CHR ''-'', c @ rest, ?g1) Some else None)"
      unfolding step1 d t sr using True by (simp add: bx del: rx.simps)
    show ?thesis
    proof (cases "b \<noteq> a \<and> x = CHR ''-''")
      case False
      then show ?thesis unfolding step2 lm using bx by auto
    next
      case dash: True
      with ok \<open>date_form (take 10 L)\<close> have "\<not> list_all isspace c"
        by (auto simp add: blank_after_date_def Let_def a_def[symmetric] b_def[symmetric]
              c_def[symmetric] bx)
      then have ene: "e \<noteq> []"
        by (simp add: e_def list_all_iff dropWhile_eq_Nil_conv)
      note sr2 = space_run_line[of c rest, folded e_def, OF ene]
      obtain pre2 where ce: "c = pre2 @ e" unfolding e_def using dropWhile_suffix by blast
      have Le: "L = (take 10 L @ pre @ x # pre2) @ e"
        by (subst La, subst ab, subst bx, subst ce) simp
      have laste: "last e = last L" using ene by (subst Le) simp
      have nonle: "newline \<notin> set e" using nonl by (subst (asm) Le) simp
      show ?thesis
      proof (cases "e = c")
        case True
        then have "run_length Space (c @ rest) = 0" using sr2(2) by simp
        then have "rx (Cat ?tail) (Some CHR ''-'', c @ rest, ?g1) Some = None"
          by (rule rx_Cat_Plus_zero)
        with True dash show ?thesis unfolding step2 lm by simp
      next
        case False
        then have pos: "0 < run_length Space (c @ rest)" using sr2(2) by simp
        obtain p4 where adv: "advance (run_length Space (c @ rest)) (Some CHR ''-'', c @ rest, ?g1)
              = (p4, e @ rest, ?g1)"
          unfolding advance_run sr2(1) by simp
        have inner: "rx (Cat [Group ''description'' (Plus AnyChar), Eol]) (p4, e @ rest, ?g1) Some
              = Some (Some (last L), rest, [(''date'', take 10 L), (''description'', e)])"
          using rx_rest_of_line_Plus[OF nonle ene rest, of "''description''" p4 ?g1]
          by (simp only: laste append.simps)
        have "rx (Cat ?tail) (Some CHR ''-'', c @ rest, ?g1) Some
              = Some (Some (last L), rest, [(''date'', take 10 L), (''description'', e)])"
          using rx_Cat_Plus_first[OF pos, of "[Group ''description'' (Plus AnyChar), Eol]"
                  "Some CHR ''-''" ?g1 Some]
          unfolding adv inner by simp
        with False dash \<open>date_form (take 10 L)\<close> bne bx ene show ?thesis
          unfolding step2 lm by simp
      qed
    qed
  qed
qed


lemma map_map_filter: "map h (List.map_filter f xs) = List.map_filter (\<lambda>x. map_option h (f x)) xs"
  by (induction xs) (simp_all add: map_filter_simps split: option.splits)

lemma lm_dash_nonempty: "lm_dash L = Some g \<Longrightarrow> L \<noteq> []"
  using date_form_length[of "take 10 L"] by (auto simp: lm_dash_def Let_def split: if_splits)

lemma lm_bare_nonempty: "lm_bare L = Some g \<Longrightarrow> L \<noteq> []"
  using date_form_length[of "take 10 L"] by (auto simp: lm_bare_def Let_def split: if_splits)

lemma dash_line_lm:
  "map_option (\<lambda>m. (group m ''date'', strip (group m ''description'')))
     (map_option (\<lambda>g. \<lparr>whole = L, groups = g\<rparr>) (lm_dash L)) = dash_line L"
  by (simp add: lm_dash_def dash_line_def Let_def group_def)

lemma bare_line_lm:
  "map_option (\<lambda>m. (group m ''1'', strip (group m ''2'')))
     (map_option (\<lambda>g. \<lparr>whole = L, groups = g\<rparr>) (lm_bare L)) = bare_line L"
  by (simp add: lm_bare_def bare_line_def Let_def group_def)

lemma finditer_MOVEMENT_RE_lines:
  assumes "list_all (\<lambda>L. \<not> blank_after_date L) (split_nl text)"
  shows "map (\<lambda>m. (group m ''date'', strip (group m ''description''))) (finditer MOVEMENT_RE text)
           = List.map_filter dash_line (split_nl text)"
proof -
  let ?es = "[Group ''date'' DATE, Plus Space, Chr (Lit CHR ''-''), Plus Space,
              Group ''description'' (Plus AnyChar), Eol]"
  have re: "MOVEMENT_RE = Cat (Bol # ?es)" by (simp only: MOVEMENT_RE_def)
  have "scan (Cat (Bol # ?es)) None text
          = List.map_filter (\<lambda>L. map_option (\<lambda>g. \<lparr>whole = L, groups = g\<rparr>) (lm_dash L))
              (split_nl text)"
  proof (rule scan_lines[where ok = "\<lambda>L. \<not> blank_after_date L"])
    show "rx (Cat (Bol # ?es)) (p, L @ rest, []) Some
            = (case lm_dash L of None \<Rightarrow> None | Some g \<Rightarrow> Some (Some (last L), rest, g))"
      if "p = None \<or> p = Some newline" "newline \<notin> set L" "\<not> blank_after_date L"
         "rest = [] \<or> hd rest = newline" for p L rest
      using MOVEMENT_RE_line[OF that] by (simp only: re)
    show "L \<noteq> []" if "lm_dash L = Some g" for L g
      using that by (rule lm_dash_nonempty)
    show "list_all (\<lambda>L. \<not> blank_after_date L) (split_nl text)" by (rule assms)
    show "None = None \<or> None = Some newline" by simp
  qed
  then show ?thesis
    by (simp only: finditer_def re map_map_filter dash_line_lm)
qed

lemma finditer_date_re_lines:
  assumes "list_all (\<lambda>L. \<not> blank_after_date L) (split_nl text)"
  shows "map (\<lambda>m. (group m ''1'', strip (group m ''2''))) (finditer date_re text)
           = List.map_filter bare_line (split_nl text)"
proof -
  let ?es = "[Group ''1'' DATE, Plus Space, Group ''2'' (Star AnyChar), Eol]"
  have re: "date_re = Cat (Bol # ?es)" by (simp only: date_re_def)
  have "scan (Cat (Bol # ?es)) None text
          = List.map_filter (\<lambda>L. map_option (\<lambda>g. \<lparr>whole = L, groups = g\<rparr>) (lm_bare L))
              (split_nl text)"
  proof (rule scan_lines[where ok = "\<lambda>L. \<not> blank_after_date L"])
    show "rx (Cat (Bol # ?es)) (p, L @ rest, []) Some
            = (case lm_bare L of None \<Rightarrow> None | Some g \<Rightarrow> Some (Some (last L), rest, g))"
      if "p = None \<or> p = Some newline" "newline \<notin> set L" "\<not> blank_after_date L"
         "rest = [] \<or> hd rest = newline" for p L rest
      using date_re_line[OF that] by (simp only: re)
    show "L \<noteq> []" if "lm_bare L = Some g" for L g
      using that by (rule lm_bare_nonempty)
    show "list_all (\<lambda>L. \<not> blank_after_date L) (split_nl text)" by (rule assms)
    show "None = None \<or> None = Some newline" by simp
  qed
  then show ?thesis
    by (simp only: finditer_def re map_map_filter bare_line_lm)
qed

text \<open>
  Claim C3, as amended. For every input text in which no line is a date followed by
  whitespace only, or a date, whitespace and a dash followed by whitespace only, event
  parsing returns the (date, description) pairs of all dash lines
  (\<^verbatim>\<open>DD/MM/YYYY - description\<close>) in line order; the bare-date fallback
  (\<^verbatim>\<open>DD/MM/YYYY\<close>, whitespace, description) is used if and only if no line is a dash
  line, and its pairs are in line order too: the fallback never adds to a primary result
  that is not empty.
\<close>

theorem parse_events_line_by_line:
  assumes "list_all (\<lambda>L. \<not> blank_after_date L) (split_nl text)"
  shows "parse_events text =
           (if List.map_filter dash_line (split_nl text) \<noteq> []
            then List.map_filter dash_line (split_nl text)
            else List.map_filter bare_line (split_nl text))"
  unfolding parse_events_def Let_def
    finditer_MOVEMENT_RE_lines[OF assms] finditer_date_re_lines[OF assms] ..

theorem parse_events_line_by_line_witness:
  "list_all (\<lambda>L. \<not> blank_after_date L) (split_nl events_example)
   \<and> (if List.map_filter dash_line (split_nl events_example) \<noteq> []
      then List.map_filter dash_line (split_nl events_example)
      else List.map_filter bare_line (split_nl events_example))
     = [(''01/02/2024'', ''Juntada de peticao''), (''05/06/2024'', ''Sentenca'')]"
proof -
  have h: "list_all (\<lambda>L. \<not> blank_after_date L) (split_nl events_example)"
    by code_simp
  have "parse_events events_example
          = [(''01/02/2024'', ''Juntada de peticao''), (''05/06/2024'', ''Sentenca'')]"
    by code_simp
  with parse_events_line_by_line[OF h] h show ?thesis by simp
qed

text \<open>
  Claim C3 as stated fails: in the text of the two lines \<^verbatim>\<open>01/02/2024\<close> and
  \<^verbatim>\<open>- foo\<close> no line is a dash line and no line is a bare-date line, yet event parsing
  returns a pair, because the whitespace run after the date takes the line break.
\<close>

theorem parse_events_crosses_lines_counterexample:
  "List.map_filter dash_line (split_nl (''01/02/2024'' @ [newline] @ ''- foo'')) = []
   \<and> List.map_filter bare_line (split_nl (''01/02/2024'' @ [newline] @ ''- foo'')) = []
   \<and> parse_events (''01/02/2024'' @ [newline] @ ''- foo'') = [(''01/02/2024'', ''foo'')]"
  by code_simp


subsection \<open>Paths and the file system\<close>

text \<open>A path is the list of its components below a fixed base directory; paths are
  taken as resolved (no symbolic links, no \<^verbatim>\<open>..\<close>), so \<^verbatim>\<open>resolve()\<close> is the
  identity. \<^verbatim>\<open>dir / name\<close> is \<open>dir @ [name]\<close> and \<^verbatim>\<open>p.parent\<close> is
  \<open>butlast p\<close>.\<close>

type_synonym path = "string list"

text \<open>\<^verbatim>\<open>p.name\<close>, \<^verbatim>\<open>str(p)\<close> and \<^verbatim>\<open>p.stem\<close> (the name without its last suffix; a
  leading or a final dot starts no suffix).\<close>

definition path_name :: "path \<Rightarrow> string" where
  "path_name p = (if p = [] then [] else last p)"

fun path_str :: "path \<Rightarrow> string" where
  "path_str [] = ''.''"
| "path_str [n] = n"
| "path_str (n # m # ps) = n @ ''/'' @ path_str (m # ps)"

definition path_stem :: "path \<Rightarrow> string" where
  "path_stem p =
     (let name = path_name p;
          i = length name - Suc (length (takeWhile (\<lambda>c. c \<noteq> CHR ''.'') (rev name)))
      in if CHR ''.'' \<in> set name \<and> 0 < i \<and> Suc i < length name then take i name else name)"

text \<open>The file system: an association list from paths to regular files (with their
  bytes) and directories, read with \<^const>\<open>map_of\<close>. The order of the list is the order
  in which a directory scan meets the entries.\<close>

datatype node = File string | Dir

type_synonym fs = "(path \<times> node) list"

definition is_file :: "fs \<Rightarrow> path \<Rightarrow> bool" where
  "is_file fs p = (case map_of fs p of Some (File b) \<Rightarrow> True | _ \<Rightarrow> False)"

text \<open>\<^verbatim>\<open>p.mkdir(parents=True, exist_ok=True)\<close>: every missing directory on the way is
  created; a regular file in the way raises.\<close>

fun mkdir1 :: "path \<Rightarrow> exn + fs \<Rightarrow> exn + fs" where
  "mkdir1 q (Inl e) = Inl e"
| "mkdir1 q (Inr fs) =
     (case map_of fs q of
        Some Dir \<Rightarrow> Inr fs
      | Some (File b) \<Rightarrow> Inl OSError
      | None \<Rightarrow> Inr (fs @ [(q, Dir)]))"

definition mkdir_p :: "path \<Rightarrow> fs \<Rightarrow> exn + fs" where
  "mkdir_p p fs = fold mkdir1 (map (\<lambda>k. take k p) [1..<Suc (length p)]) (Inr fs)"

subsection \<open>Text extraction\<close>

text \<open>What \<^verbatim>\<open>subprocess.run(["pdftotext", src, dst], check=True, capture_output=True)\<close>
  can do: the executable is not found (\<^verbatim>\<open>FileNotFoundError\<close>), or the process runs,
  changes the file system as it likes and exits with a return code and its captured
  standard error. The converter and the decoding of the scratch file's bytes
  (\<^verbatim>\<open>read_text(encoding="utf-8", errors="ignore")\<close>) are parameters of the model.\<close>

datatype proc_result = NotFound | Exited int string

record env =
  converter :: "path \<Rightarrow> path \<Rightarrow> fs \<Rightarrow> proc_result \<times> fs"
  decode :: "string \<Rightarrow> string"

text \<open>\<^verbatim>\<open>repr\<close> of a \<^verbatim>\<open>bytes\<close> object, as the f-string's \<^verbatim>\<open>{exc.stderr!r}\<close> prints
  it.\<close>

definition hexdigit :: "nat \<Rightarrow> char" where
  "hexdigit n = (''0123456789abcdef'') ! n"

definition bytes_repr :: "string \<Rightarrow> string" where
  "bytes_repr bs =
     (let quote = (if CHR 0x27 \<in> set bs \<and> CHR 0x22 \<notin> set bs then CHR 0x22 else CHR 0x27);
          esc = (\<lambda>c. if c = quote \<or> c = CHR 0x5C then [CHR 0x5C, c]
                     else if c = CHR 0x09 then [CHR 0x5C, CHR ''t'']
                     else if c = CHR 0x0A then [CHR 0x5C, CHR ''n'']
                     else if c = CHR 0x0D then [CHR 0x5C, CHR ''r'']
                     else if (of_char c :: nat) < 32 \<or> 127 \<le> (of_char c :: nat)
                     then [CHR 0x5C, CHR ''x'', hexdigit (of_char c div 16),
                           hexdigit (of_char c mod 16)]
                     else [c])
      in ''b'' @ [quote] @ concat (map esc bs) @ [quote])"

text \<open>The two messages of \<^verbatim>\<open>PdfTextExtractionError\<close>:
  \<^verbatim>\<open>"O utilit\<close>a\<^verbatim>\<open>rio 'pdftotext' n\<close>a\<^verbatim>\<open>o est\<close>a\<^verbatim>\<open> dispon\<close>i\<^verbatim>\<open>vel no sistema."\<close> (accented
  letters 0xE1, 0xE3, 0xE1, 0xED) and
  \<^verbatim>\<open>f"Falha ao converter '{pdf_path.name}' para texto: {exc.stderr!r}"\<close>.\<close>

definition unavailable_message :: string where
  "unavailable_message =
     ''O utilit'' @ [CHR 0xE1] @ ''rio '' @ [CHR 0x27] @ ''pdftotext'' @ [CHR 0x27] @ '' n''
       @ [CHR 0xE3] @ ''o est'' @ [CHR 0xE1] @ '' dispon'' @ [CHR 0xED] @ ''vel no sistema.''"

definition failed_message :: "string \<Rightarrow> string \<Rightarrow> string" where
  "failed_message name err =
     ''Falha ao converter '' @ [CHR 0x27] @ name @ [CHR 0x27] @ '' para texto: ''
       @ bytes_repr err"

text \<open>\<^verbatim>\<open>extract_text_from_pdf\<close>: the result and the file system it leaves. When the
  executable is not found no process ran, so the file system is the one after
  \<^verbatim>\<open>mkdir\<close>.\<close>

definition extract_text_from_pdf :: "env \<Rightarrow> path \<Rightarrow> path \<Rightarrow> fs \<Rightarrow> (exn + string) \<times> fs" where
  "extract_text_from_pdf env pdf_path destination fs =
     (case mkdir_p (butlast destination) fs of
        Inl e \<Rightarrow> (Inl e, fs)
      | Inr fs1 \<Rightarrow>
          (case converter env pdf_path destination fs1 of
             (NotFound, fs2) \<Rightarrow> (Inl (PdfTextExtractionError unavailable_message), fs1)
           | (Exited rc err, fs2) \<Rightarrow>
               if rc \<noteq> 0
               then (Inl (PdfTextExtractionError (failed_message (path_name pdf_path) err)), fs2)
               else (case map_of fs2 destination of
                       Some (File b) \<Rightarrow> (Inr (decode env b), AList.delete destination fs2)
                     | _ \<Rightarrow> (Inl OSError, fs2))))"

text \<open>The class of an exception, which is what an \<^verbatim>\<open>except\<close> clause tells apart.\<close>

datatype exn_class = ClsBuildDbError | ClsPdfTextExtractionError | ClsOSError | ClsSqliteError

fun class_of :: "exn \<Rightarrow> exn_class" where
  "class_of (BuildDbError m) = ClsBuildDbError"
| "class_of (PdfTextExtractionError m) = ClsPdfTextExtractionError"
| "class_of OSError = ClsOSError"
| "class_of SqliteError = ClsSqliteError"

text \<open>Three environments: no converter installed; a converter that writes part of its
  output and exits with code 1; a converter that writes the text and exits with 0.\<close>

definition env_missing :: env where
  "env_missing = \<lparr>converter = (\<lambda>src dst fs. (NotFound, fs)), decode = (\<lambda>b. b)\<rparr>"

definition env_failing :: env where
  "env_failing =
     \<lparr>converter = (\<lambda>src dst fs. (Exited 1 ''Syntax Error'', AList.update dst (File ''partial'') fs)),
      decode = (\<lambda>b. b)\<rparr>"

definition env_working :: env where
  "env_working =
     \<lparr>converter = (\<lambda>src dst fs. (Exited 0 [], AList.update dst (File ''Autos 1234567-89.2024.1.23.4567'') fs)),
      decode = (\<lambda>b. b)\<rparr>"

subsection \<open>Properties of text extraction\<close>

lemma failed_message_starts: "hd (failed_message name err) = CHR ''F''"
  by (simp add: failed_message_def)

lemma unavailable_message_starts: "hd unavailable_message = CHR ''O''"
  by (simp add: unavailable_message_def)

text \<open>
  Claim C6, as amended. Once the scratch directory exists, text extraction fails with
  \<^verbatim>\<open>PdfTextExtractionError\<close> both when the converter executable cannot be found and when
  the converter exits with a code other than zero: the two causes have the same error
  kind. They differ in the message only: a fixed message for the missing converter, and
  for the failed conversion a message that names the document and ends with the
  converter's diagnostic output; the two messages are never equal.
\<close>

theorem extraction_failures_share_one_kind:
  assumes "mkdir_p (butlast destination) fs = Inr fs1"
  shows "(fst (converter env pdf_path destination fs1) = NotFound \<longrightarrow>
            fst (extract_text_from_pdf env pdf_path destination fs)
              = Inl (PdfTextExtractionError unavailable_message))
       \<and> (\<forall>rc err. fst (converter env pdf_path destination fs1) = Exited rc err \<and> rc \<noteq> 0 \<longrightarrow>
            fst (extract_text_from_pdf env pdf_path destination fs)
              = Inl (PdfTextExtractionError (failed_message (path_name pdf_path) err)))
       \<and> (\<forall>name err. class_of (PdfTextExtractionError (failed_message name err))
                        = class_of (PdfTextExtractionError unavailable_message)
                    \<and> failed_message name err \<noteq> unavailable_message
                    \<and> (\<exists>pre. failed_message name err = pre @ bytes_repr err))"
proof (intro conjI allI impI)
  show "fst (extract_text_from_pdf env pdf_path destination fs)
          = Inl (PdfTextExtractionError unavailable_message)"
    if "fst (converter env pdf_path destination fs1) = NotFound"
    using that assms
    by (cases "converter env pdf_path destination fs1") (simp add: extract_text_from_pdf_def)
  show "fst (extract_text_from_pdf env pdf_path destination fs)
          = Inl (PdfTextExtractionError (failed_message (path_name pdf_path) err))"
    if "fst (converter env pdf_path destination fs1) = Exited rc err \<and> rc \<noteq> 0" for rc err
    using that assms
    by (cases "converter env pdf_path destination fs1") (simp add: extract_text_from_pdf_def)
  show "class_of (PdfTextExtractionError (failed_message name err))
          = class_of (PdfTextExtractionError unavailable_message)" for name err
    by simp
  show "failed_message name err \<noteq> unavailable_message" for name err
    using failed_message_starts[of name err] unavailable_message_starts by auto
  show "\<exists>pre. failed_message name err = pre @ bytes_repr err" for name err
    unfolding failed_message_def by (metis append.assoc)
qed

theorem extraction_failures_share_one_kind_witness:
  "mkdir_p (butlast [''tmp'', ''a.txt'']) [] = Inr [([''tmp''], Dir)]
   \<and> fst (converter env_missing [''pdfs'', ''a.pdf''] [''tmp'', ''a.txt''] [([''tmp''], Dir)]) = NotFound
   \<and> fst (extract_text_from_pdf env_missing [''pdfs'', ''a.pdf''] [''tmp'', ''a.txt''] [])
       = Inl (PdfTextExtractionError unavailable_message)
   \<and> fst (converter env_failing [''pdfs'', ''a.pdf''] [''tmp'', ''a.txt''] [([''tmp''], Dir)])
       = Exited 1 ''Syntax Error''
   \<and> fst (extract_text_from_pdf env_failing [''pdfs'', ''a.pdf''] [''tmp'', ''a.txt''] [])
       = Inl (PdfTextExtractionError (failed_message ''a.pdf'' ''Syntax Error''))"
proof -
  have m: "mkdir_p (butlast [''tmp'', ''a.txt'']) [] = Inr [([''tmp''], Dir)]"
    by (simp add: mkdir_p_def)
  have c1: "fst (converter env_missing [''pdfs'', ''a.pdf''] [''tmp'', ''a.txt''] [([''tmp''], Dir)])
              = NotFound"
    by (simp add: env_missing_def)
  have c2: "fst (converter env_failing [''pdfs'', ''a.pdf''] [''tmp'', ''a.txt''] [([''tmp''], Dir)])
              = Exited 1 ''Syntax Error'' \<and> (1::int) \<noteq> 0"
    by (simp add: env_failing_def)
  from extraction_failures_share_one_kind[OF m, of env_missing "[''pdfs'', ''a.pdf'']"] c1
  have r1: "fst (extract_text_from_pdf env_missing [''pdfs'', ''a.pdf''] [''tmp'', ''a.txt''] [])
       = Inl (PdfTextExtractionError unavailable_message)"
    by blast
  from extraction_failures_share_one_kind[OF m, of env_failing "[''pdfs'', ''a.pdf'']"] c2
  have r2: "fst (extract_text_from_pdf env_failing [''pdfs'', ''a.pdf''] [''tmp'', ''a.txt''] [])
       = Inl (PdfTextExtractionError (failed_message (path_name [''pdfs'', ''a.pdf'']) ''Syntax Error''))"
    by blast
  from m c1 c2 r1 r2 show ?thesis by (simp add: path_name_def)
qed

text \<open>
  Claim C6 as stated fails: the error raised for a missing converter and the error raised
  for a converter that exits with code 1 are of the same class.
\<close>

theorem extraction_error_kinds_counterexample:
  "(case (fst (extract_text_from_pdf env_missing [''pdfs'', ''a.pdf''] [''tmp'', ''a.txt''] []),
          fst (extract_text_from_pdf env_failing [''pdfs'', ''a.pdf''] [''tmp'', ''a.txt''] [])) of
      (Inl unavailable, Inl failed) \<Rightarrow> class_of unavailable = class_of failed
    | other \<Rightarrow> False)"
  by (simp add: extract_text_from_pdf_def mkdir_p_def env_missing_def env_failing_def)


text \<open>
  Claim C7, as amended. When the converter exits with code zero and the scratch file
  can be read, extraction returns its decoded text and the scratch file is gone when the
  call returns. On every failure path (converter missing, exit code other than zero,
  scratch file not readable) the call raises and leaves the file system as it was at
  that moment: nothing is deleted.
\<close>

theorem scratch_file_removed_on_success_only:
  assumes "mkdir_p (butlast destination) fs = Inr fs1"
    and "converter env pdf_path destination fs1 = (res, fs2)"
  shows "(\<forall>err b. res = Exited 0 err \<and> map_of fs2 destination = Some (File b) \<longrightarrow>
            extract_text_from_pdf env pdf_path destination fs
              = (Inr (decode env b), AList.delete destination fs2)
            \<and> map_of (snd (extract_text_from_pdf env pdf_path destination fs)) destination = None)
       \<and> (res = NotFound \<longrightarrow>
            extract_text_from_pdf env pdf_path destination fs
              = (Inl (PdfTextExtractionError unavailable_message), fs1))
       \<and> (\<forall>rc err. res = Exited rc err \<and> rc \<noteq> 0 \<longrightarrow>
            extract_text_from_pdf env pdf_path destination fs
              = (Inl (PdfTextExtractionError (failed_message (path_name pdf_path) err)), fs2))
       \<and> (\<forall>err. res = Exited 0 err \<and> \<not> is_file fs2 destination \<longrightarrow>
            extract_text_from_pdf env pdf_path destination fs = (Inl OSError, fs2))"
proof (intro conjI allI impI)
  show "extract_text_from_pdf env pdf_path destination fs
          = (Inr (decode env b), AList.delete destination fs2)"
    if "res = Exited 0 err \<and> map_of fs2 destination = Some (File b)" for err b
    using that assms by (simp add: extract_text_from_pdf_def)
  then show "map_of (snd (extract_text_from_pdf env pdf_path destination fs)) destination = None"
    if "res = Exited 0 err \<and> map_of fs2 destination = Some (File b)" for err b
    using that by (simp add: delete_conv')
  show "extract_text_from_pdf env pdf_path destination fs
          = (Inl (PdfTextExtractionError unavailable_message), fs1)"
    if "res = NotFound"
    using that assms by (simp add: extract_text_from_pdf_def)
  show "extract_text_from_pdf env pdf_path destination fs
          = (Inl (PdfTextExtractionError (failed_message (path_name pdf_path) err)), fs2)"
    if "res = Exited rc err \<and> rc \<noteq> 0" for rc err
    using that assms by (simp add: extract_text_from_pdf_def)
  show "extract_text_from_pdf env pdf_path destination fs = (Inl OSError, fs2)"
    if "res = Exited 0 err \<and> \<not> is_file fs2 destination" for err
    using that assms
    by (auto simp: extract_text_from_pdf_def is_file_def split: option.splits node.splits)
qed

theorem scratch_file_removed_on_success_only_witness:
  "mkdir_p (butlast [''tmp'', ''a.txt'']) [] = Inr [([''tmp''], Dir)]
   \<and> converter env_working [''pdfs'', ''a.pdf''] [''tmp'', ''a.txt''] [([''tmp''], Dir)]
       = (Exited 0 [], [([''tmp''], Dir),
                        ([''tmp'', ''a.txt''], File ''Autos 1234567-89.2024.1.23.4567'')])
   \<and> extract_text_from_pdf env_working [''pdfs'', ''a.pdf''] [''tmp'', ''a.txt''] []
       = (Inr ''Autos 1234567-89.2024.1.23.4567'', [([''tmp''], Dir)])
   \<and> map_of (snd (extract_text_from_pdf env_working [''pdfs'', ''a.pdf''] [''tmp'', ''a.txt''] []))
         [''tmp'', ''a.txt''] = None"
proof -
  have m: "mkdir_p (butlast [''tmp'', ''a.txt'']) [] = Inr [([''tmp''], Dir)]"
    by (simp add: mkdir_p_def)
  have c: "converter env_working [''pdfs'', ''a.pdf''] [''tmp'', ''a.txt''] [([''tmp''], Dir)]
       = (Exited 0 [], [([''tmp''], Dir),
                        ([''tmp'', ''a.txt''], File ''Autos 1234567-89.2024.1.23.4567'')])"
    by (simp add: env_working_def)
  have f: "map_of [([''tmp''], Dir),
                   ([''tmp'', ''a.txt''], File ''Autos 1234567-89.2024.1.23.4567'')]
             [''tmp'', ''a.txt''] = Some (File ''Autos 1234567-89.2024.1.23.4567'')"
    by simp
  from scratch_file_removed_on_success_only[OF m c] f
  have "extract_text_from_pdf env_working [''pdfs'', ''a.pdf''] [''tmp'', ''a.txt''] []
       = (Inr (decode env_working ''Autos 1234567-89.2024.1.23.4567''),
          AList.delete [''tmp'', ''a.txt'']
            [([''tmp''], Dir), ([''tmp'', ''a.txt''], File ''Autos 1234567-89.2024.1.23.4567'')])
     \<and> map_of (snd (extract_text_from_pdf env_working [''pdfs'', ''a.pdf''] [''tmp'', ''a.txt''] []))
         [''tmp'', ''a.txt''] = None"
    by blast
  with m c show ?thesis by (simp add: env_working_def AList.delete_eq)
qed

text \<open>
  Claim C7 as stated fails: a converter that writes part of its output and exits with
  code 1 leaves the scratch file behind, and a scratch file that was there before the
  call survives a call that finds no converter.
\<close>

theorem scratch_file_left_on_failure_counterexample:
  "extract_text_from_pdf env_failing [''pdfs'', ''a.pdf''] [''tmp'', ''a.txt''] []
     = (Inl (PdfTextExtractionError (failed_message ''a.pdf'' ''Syntax Error'')),
        [([''tmp''], Dir), ([''tmp'', ''a.txt''], File ''partial'')])
   \<and> map_of (snd (extract_text_from_pdf env_failing [''pdfs'', ''a.pdf''] [''tmp'', ''a.txt''] []))
         [''tmp'', ''a.txt''] = Some (File ''partial'')
   \<and> map_of (snd (extract_text_from_pdf env_missing [''pdfs'', ''a.pdf''] [''tmp'', ''a.txt'']
                    [([''tmp''], Dir), ([''tmp'', ''a.txt''], File ''stale'')]))
         [''tmp'', ''a.txt''] = Some (File ''stale'')"
  by (simp add: extract_text_from_pdf_def mkdir_p_def env_missing_def env_failing_def
        path_name_def)

subsection \<open>Directory scan\<close>

text \<open>\<^verbatim>\<open>directory.glob("*.pdf")\<close> yields the entries of the directory whose name ends
  in \<^verbatim>\<open>.pdf\<close> (hidden entries too; the match is case-sensitive, as on POSIX systems).
  \<^verbatim>\<open>sorted\<close> orders the paths by their components, and \<^verbatim>\<open>_iter_pdf_files\<close> keeps
  those that are regular files.\<close>

definition ends_with :: "string \<Rightarrow> string \<Rightarrow> bool" where
  "ends_with suf s = (length suf \<le> length s \<and> drop (length s - length suf) s = suf)"

definition glob_pdf :: "fs \<Rightarrow> path \<Rightarrow> path list" where
  "glob_pdf fs directory =
     map fst (filter (\<lambda>(p, n). p \<noteq> [] \<and> butlast p = directory \<and> ends_with ''.pdf'' (last p)) fs)"

definition iter_pdf_files :: "fs \<Rightarrow> path \<Rightarrow> path list" where
  "iter_pdf_files fs directory = filter (is_file fs) (sort (glob_pdf fs directory))"

text \<open>An entry of the file system that is a regular file of the directory with a name
  ending in \<^verbatim>\<open>.pdf\<close>.\<close>

definition pdf_entry :: "path \<Rightarrow> path \<times> node \<Rightarrow> bool" where
  "pdf_entry directory e =
     (case e of
        (p, File b) \<Rightarrow> p \<noteq> [] \<and> butlast p = directory \<and> ends_with ''.pdf'' (last p)
      | (p, Dir) \<Rightarrow> False)"

definition scan_example :: fs where
  "scan_example =
     [([''in''], Dir), ([''in'', ''b.pdf''], File ''2''), ([''in'', ''notes.txt''], File ''n''),
      ([''in'', ''A.PDF''], File ''3''), ([''in'', ''dir.pdf''], Dir),
      ([''in'', ''a.pdf''], File ''1''), ([''in'', ''sub'', ''c.pdf''], File ''4''),
      ([''in'', ''Z.pdf''], File ''5'')]"


subsection \<open>Properties of the directory scan\<close>

lemma is_file_iff:
  "distinct (map fst fs) \<Longrightarrow> is_file fs p \<longleftrightarrow> (\<exists>b. (p, File b) \<in> set fs)"
proof -
  assume d: "distinct (map fst fs)"
  have "is_file fs p \<longleftrightarrow> (\<exists>b. map_of fs p = Some (File b))"
    by (auto simp: is_file_def split: option.splits node.splits)
  then show ?thesis by (simp only: map_of_eq_Some_iff[OF d])
qed

lemma iter_pdf_files_props:
  assumes "distinct (map fst fs)"
  shows "sorted (iter_pdf_files fs d)" and "distinct (iter_pdf_files fs d)"
    and "set (iter_pdf_files fs d) = fst ` {e \<in> set fs. pdf_entry d e}"
proof -
  show "sorted (iter_pdf_files fs d)"
    unfolding iter_pdf_files_def by (rule sorted_wrt_filter) simp
  have "distinct (glob_pdf fs d)"
    unfolding glob_pdf_def using assms by (rule distinct_map_filter)
  then show "distinct (iter_pdf_files fs d)"
    by (simp add: iter_pdf_files_def)
  show "set (iter_pdf_files fs d) = fst ` {e \<in> set fs. pdf_entry d e}"
  proof (intro set_eqI iffI)
    fix p
    assume "p \<in> set (iter_pdf_files fs d)"
    then have f: "is_file fs p" and g: "p \<in> set (glob_pdf fs d)"
      by (simp_all add: iter_pdf_files_def)
    from f obtain b where b: "(p, File b) \<in> set fs"
      using is_file_iff[OF assms] by blast
    from g have "p \<noteq> [] \<and> butlast p = d \<and> ends_with ''.pdf'' (last p)"
      by (auto simp: glob_pdf_def)
    with b have "(p, File b) \<in> {e \<in> set fs. pdf_entry d e}"
      by (simp add: pdf_entry_def)
    then show "p \<in> fst ` {e \<in> set fs. pdf_entry d e}" by force
  next
    fix p
    assume "p \<in> fst ` {e \<in> set fs. pdf_entry d e}"
    then obtain n where e: "(p, n) \<in> set fs" and pe: "pdf_entry d (p, n)" by auto
    from pe obtain b where n: "n = File b"
      and c: "p \<noteq> [] \<and> butlast p = d \<and> ends_with ''.pdf'' (last p)"
      by (cases n) (simp_all add: pdf_entry_def)
    from e n have "is_file fs p" using is_file_iff[OF assms] by blast
    moreover from e c have "p \<in> set (glob_pdf fs d)" by (force simp: glob_pdf_def)
    ultimately show "p \<in> set (iter_pdf_files fs d)" by (simp add: iter_pdf_files_def)
  qed
qed

text \<open>
  Claim C10. In a file system with one entry per path, the scan of a directory yields
  exactly the regular files of that directory whose names end in the lowercase
  \<^verbatim>\<open>.pdf\<close>, each once and in sorted path order; every other entry is ignored, that
  is, the scan of the file system with all other entries removed yields the same list.
  A name ending in \<^verbatim>\<open>.PDF\<close> does not match.
\<close>

theorem iter_pdf_files_exact:
  assumes "distinct (map fst fs)"
  shows "sorted (iter_pdf_files fs d) \<and> distinct (iter_pdf_files fs d)
       \<and> set (iter_pdf_files fs d) = fst ` {e \<in> set fs. pdf_entry d e}
       \<and> iter_pdf_files (filter (pdf_entry d) fs) d = iter_pdf_files fs d
       \<and> \<not> ends_with ''.pdf'' ''A.PDF''
       \<and> iter_pdf_files scan_example [''in'']
           = [[''in'', ''Z.pdf''], [''in'', ''a.pdf''], [''in'', ''b.pdf'']]"
proof -
  note p = iter_pdf_files_props[OF assms, of d]
  have d': "distinct (map fst (filter (pdf_entry d) fs))"
    using assms by (rule distinct_map_filter)
  note p' = iter_pdf_files_props[OF d', of d]
  have "set (iter_pdf_files (filter (pdf_entry d) fs) d) = set (iter_pdf_files fs d)"
    unfolding p(3) p'(3) by auto
  with p(1,2) p'(1,2)
  have same: "iter_pdf_files (filter (pdf_entry d) fs) d = iter_pdf_files fs d"
    by (intro sorted_distinct_set_unique)
  have ex: "iter_pdf_files scan_example [''in'']
           = [[''in'', ''Z.pdf''], [''in'', ''a.pdf''], [''in'', ''b.pdf'']]"
    by code_simp
  have up: "\<not> ends_with ''.pdf'' ''A.PDF''" by (simp add: ends_with_def)
  from p same ex up show ?thesis by blast
qed

theorem iter_pdf_files_exact_witness:
  "distinct (map fst scan_example)
   \<and> set (iter_pdf_files scan_example [''in''])
       = fst ` {e \<in> set scan_example. pdf_entry [''in''] e}
   \<and> iter_pdf_files (filter (pdf_entry [''in'']) scan_example) [''in'']
       = [[''in'', ''Z.pdf''], [''in'', ''a.pdf''], [''in'', ''b.pdf'']]"
proof -
  have d: "distinct (map fst scan_example)" by (simp add: scan_example_def)
  note w = iter_pdf_files_exact[OF d, of "[''in'']"]
  from w have a: "set (iter_pdf_files scan_example [''in''])
       = fst ` {e \<in> set scan_example. pdf_entry [''in''] e}" by blast
  from w have b: "iter_pdf_files (filter (pdf_entry [''in'']) scan_example) [''in'']
       = iter_pdf_files scan_example [''in'']" by blast
  from w have c: "iter_pdf_files scan_example [''in'']
       = [[''in'', ''Z.pdf''], [''in'', ''a.pdf''], [''in'', ''b.pdf'']]" by blast
  from b c have "iter_pdf_files (filter (pdf_entry [''in'']) scan_example) [''in'']
       = [[''in'', ''Z.pdf''], [''in'', ''a.pdf''], [''in'', ''b.pdf'']]" by (rule trans)
  with d a show ?thesis by blast
qed


subsection \<open>Import results and the tables of the database\<close>

text \<open>The dataclass \<^verbatim>\<open>PdfImportResult\<close> and the rows of the three tables that
  \<^verbatim>\<open>build_db.py\<close> writes. A table is the list of its rows in insertion order, together
  with the largest row id that its \<^verbatim>\<open>AUTOINCREMENT\<close> column has handed out so far.\<close>

record pdf_import_result =
  process_number :: string
  title :: string
  events :: "(string \<times> string) list"
  document_text :: string
  stored_path :: path

record process_row =
  p_id :: nat
  p_number :: string
  p_title :: string
  p_pdf_path :: string
  p_created_at :: string

record event_row =
  e_id :: nat
  e_process_id :: nat
  e_event_date :: string
  e_description :: string

record document_row =
  d_id :: nat
  d_process_id :: nat
  d_file_name :: string
  d_content :: string
  d_created_at :: string

record tables =
  t_processes :: "process_row list"
  t_events :: "event_row list"
  t_documents :: "document_row list"
  seq_processes :: nat
  seq_events :: nat
  seq_documents :: nat

definition empty_tables :: tables where
  "empty_tables = \<lparr>t_processes = [], t_events = [], t_documents = [],
                    seq_processes = 0, seq_events = 0, seq_documents = 0\<rparr>"

text \<open>The row id that an \<^verbatim>\<open>AUTOINCREMENT\<close> column gives to a new row: one more than the
  largest id ever used.\<close>

definition next_rowid :: "nat \<Rightarrow> nat list \<Rightarrow> nat" where
  "next_rowid seq ids = Suc (max seq (fold max ids 0))"

text \<open>The statement \<^verbatim>\<open>INSERT INTO processes ... ON CONFLICT(number) DO UPDATE SET title = excluded.title, pdf_path = excluded.pdf_path\<close>:
  a row with the number is updated in place, otherwise a new row is appended. Whether
  the update path also advances the id sequence is left to the flag \<^verbatim>\<open>consume\<close>.\<close>

definition upsert_process ::
  "bool \<Rightarrow> string \<Rightarrow> string \<Rightarrow> string \<Rightarrow> string \<Rightarrow> tables \<Rightarrow> tables" where
  "upsert_process consume now number ttl pdf t =
     (let fresh = next_rowid (seq_processes t) (map p_id (t_processes t))
      in if number \<in> set (map p_number (t_processes t))
         then t\<lparr>t_processes :=
                   map (\<lambda>r. if p_number r = number then r\<lparr>p_title := ttl, p_pdf_path := pdf\<rparr>
                             else r) (t_processes t),
                 seq_processes := (if consume then fresh else seq_processes t)\<rparr>
         else t\<lparr>t_processes :=
                   t_processes t @ [\<lparr>p_id = fresh, p_number = number, p_title = ttl,
                                      p_pdf_path = pdf, p_created_at = now\<rparr>],
                 seq_processes := fresh\<rparr>)"

text \<open>\<^verbatim>\<open>SELECT id FROM processes WHERE number = ?\<close> followed by \<^verbatim>\<open>fetchone()\<close>, and the
  other statements of \<^verbatim>\<open>persist_import_results\<close>.\<close>

definition select_process_id :: "string \<Rightarrow> tables \<Rightarrow> nat option" where
  "select_process_id number t =
     map_option p_id (find (\<lambda>r. p_number r = number) (t_processes t))"

definition delete_events :: "nat \<Rightarrow> tables \<Rightarrow> tables" where
  "delete_events pid t = t\<lparr>t_events := filter (\<lambda>r. e_process_id r \<noteq> pid) (t_events t)\<rparr>"

definition delete_documents :: "nat \<Rightarrow> tables \<Rightarrow> tables" where
  "delete_documents pid t =
     t\<lparr>t_documents := filter (\<lambda>r. d_process_id r \<noteq> pid) (t_documents t)\<rparr>"

definition insert_event :: "nat \<Rightarrow> string \<times> string \<Rightarrow> tables \<Rightarrow> tables" where
  "insert_event pid ev t =
     (let fresh = next_rowid (seq_events t) (map e_id (t_events t))
      in t\<lparr>t_events := t_events t @ [\<lparr>e_id = fresh, e_process_id = pid,
                                        e_event_date = fst ev, e_description = snd ev\<rparr>],
            seq_events := fresh\<rparr>)"

definition insert_document :: "nat \<Rightarrow> string \<Rightarrow> string \<Rightarrow> string \<Rightarrow> tables \<Rightarrow> tables" where
  "insert_document pid name content now t =
     (let fresh = next_rowid (seq_documents t) (map d_id (t_documents t))
      in t\<lparr>t_documents := t_documents t @ [\<lparr>d_id = fresh, d_process_id = pid,
                                              d_file_name = name, d_content = content,
                                              d_created_at = now\<rparr>],
            seq_documents := fresh\<rparr>)"

subsection \<open>Connections and persistence\<close>

text \<open>A connection holds the committed tables (\<^verbatim>\<open>disk\<close>), the view of the open
  transaction (\<^verbatim>\<open>txn\<close>) and the number of operations issued so far. Every operation
  may raise \<^verbatim>\<open>sqlite3.Error\<close>: the environment says at which operation counts it
  does, and gives the clock that \<^verbatim>\<open>datetime.utcnow().isoformat()\<close> reads. A failed
  operation changes neither view.\<close>

record connection =
  disk :: tables
  txn :: tables
  ticks :: nat

record dbenv =
  fails :: "nat \<Rightarrow> bool"
  utcnow :: "nat \<Rightarrow> string"
  upsert_consumes_id :: bool

type_synonym 'a dbres = "(exn + 'a) \<times> connection"

definition bind_db :: "'a dbres \<Rightarrow> ('a \<Rightarrow> connection \<Rightarrow> 'b dbres) \<Rightarrow> 'b dbres" where
  "bind_db m k = (case m of (Inl e, c) \<Rightarrow> (Inl e, c) | (Inr a, c) \<Rightarrow> k a c)"

definition execute :: "dbenv \<Rightarrow> (tables \<Rightarrow> tables) \<Rightarrow> connection \<Rightarrow> unit dbres" where
  "execute env f c =
     (if fails env (ticks c) then (Inl SqliteError, c\<lparr>ticks := Suc (ticks c)\<rparr>)
      else (Inr (), c\<lparr>txn := f (txn c), ticks := Suc (ticks c)\<rparr>))"

definition query :: "dbenv \<Rightarrow> (tables \<Rightarrow> 'a) \<Rightarrow> connection \<Rightarrow> 'a dbres" where
  "query env f c =
     (if fails env (ticks c) then (Inl SqliteError, c\<lparr>ticks := Suc (ticks c)\<rparr>)
      else (Inr (f (txn c)), c\<lparr>ticks := Suc (ticks c)\<rparr>))"

definition commit :: "dbenv \<Rightarrow> connection \<Rightarrow> unit dbres" where
  "commit env c =
     (if fails env (ticks c) then (Inl SqliteError, c\<lparr>ticks := Suc (ticks c)\<rparr>)
      else (Inr (), c\<lparr>disk := txn c, ticks := Suc (ticks c)\<rparr>))"

fun executemany :: "dbenv \<Rightarrow> (tables \<Rightarrow> tables) list \<Rightarrow> connection \<Rightarrow> unit dbres" where
  "executemany env [] c = (Inr (), c)"
| "executemany env (f # fs) c = bind_db (execute env f c) (\<lambda>u. executemany env fs)"

text \<open>The function \<^verbatim>\<open>_get_process_id\<close>: upsert, commit, look the id up; its message
  is \<^verbatim>\<open>"Falha ao obter o ID do processo rec\<close>e\<^verbatim>\<open>m-criado."\<close> (accented letter 0xE9).\<close>

definition id_lookup_failed :: string where
  "id_lookup_failed =
     ''Falha ao obter o ID do processo rec'' @ [CHR 0xE9] @ ''m-criado.''"

definition get_process_id ::
  "dbenv \<Rightarrow> string \<Rightarrow> string \<Rightarrow> path \<Rightarrow> connection \<Rightarrow> nat dbres" where
  "get_process_id env number ttl pdf_path c =
     bind_db (execute env (upsert_process (upsert_consumes_id env) (utcnow env (ticks c))
                             number ttl (path_str pdf_path)) c) (\<lambda>u c1.
     bind_db (commit env c1) (\<lambda>u c2.
     bind_db (query env (select_process_id number) c2) (\<lambda>row c3.
       case row of
         None \<Rightarrow> (Inl (BuildDbError id_lookup_failed), c3)
       | Some i \<Rightarrow> (Inr i, c3))))"

text \<open>One iteration of the loop of \<^verbatim>\<open>persist_import_results\<close>, and the loop. An empty
  event list skips \<^verbatim>\<open>executemany\<close>, which is what \<^verbatim>\<open>executemany\<close> on the empty list
  does here.\<close>

definition persist_one :: "dbenv \<Rightarrow> pdf_import_result \<Rightarrow> connection \<Rightarrow> unit dbres" where
  "persist_one env r c =
     bind_db (get_process_id env (process_number r) (title r) (stored_path r) c) (\<lambda>pid c1.
     bind_db (execute env (delete_events pid) c1) (\<lambda>u c2.
     bind_db (execute env (delete_documents pid) c2) (\<lambda>u c3.
     bind_db (executemany env (map (insert_event pid) (events r)) c3) (\<lambda>u c4.
     bind_db (execute env (insert_document pid (path_name (stored_path r)) (document_text r)
                             (utcnow env (ticks c4))) c4) (\<lambda>u c5.
     commit env c5)))))"

fun persist_import_results :: "dbenv \<Rightarrow> pdf_import_result list \<Rightarrow> connection \<Rightarrow> unit dbres" where
  "persist_import_results env [] c = (Inr (), c)"
| "persist_import_results env (r # rs) c =
     bind_db (persist_one env r c) (\<lambda>u. persist_import_results env rs)"

text \<open>\<^verbatim>\<open>sqlite3.connect\<close> on a database whose tables exist, and \<^verbatim>\<open>ensure_schema\<close>, whose
  \<^verbatim>\<open>CREATE TABLE IF NOT EXISTS\<close> statements leave existing tables as they are.\<close>

definition connect :: "tables \<Rightarrow> connection" where
  "connect db = \<lparr>disk = db, txn = db, ticks = 0\<rparr>"

definition ensure_schema :: "dbenv \<Rightarrow> connection \<Rightarrow> unit dbres" where
  "ensure_schema env c =
     bind_db (commit env c) (\<lambda>u c1.
     bind_db (execute env (\<lambda>t. t) c1) (\<lambda>u c2.
     commit env c2))"

text \<open>An environment in which no operation fails, and two import results bearing the
  same case number.\<close>

definition no_faults :: dbenv where
  "no_faults = \<lparr>fails = (\<lambda>n. False), utcnow = (\<lambda>n. ''2024-01-01T00:00:00''), upsert_consumes_id = True\<rparr>"

definition result_a :: pdf_import_result where
  "result_a = \<lparr>process_number = ''1234567-89.2024.1.23.4567'', title = ''Autos'',
               events = [(''01/02/2024'', ''Juntada''), (''03/04/2024'', ''Sentenca'')],
               document_text = ''texto'', stored_path = [''pdfs'', ''a.pdf'']\<rparr>"

definition result_b :: pdf_import_result where
  "result_b = \<lparr>process_number = ''1234567-89.2024.1.23.4567'', title = ''Autos v2'',
               events = [(''05/06/2024'', ''Arquivado'')],
               document_text = ''texto 2'', stored_path = [''pdfs'', ''b.pdf'']\<rparr>"


subsection \<open>Properties of persistence\<close>

text \<open>The part of an iteration that follows \<^verbatim>\<open>_get_process_id\<close>.\<close>

definition replace_children :: "dbenv \<Rightarrow> pdf_import_result \<Rightarrow> nat \<Rightarrow> connection \<Rightarrow> unit dbres" where
  "replace_children env r pid c1 =
     bind_db (execute env (delete_events pid) c1) (\<lambda>u c2.
     bind_db (execute env (delete_documents pid) c2) (\<lambda>u c3.
     bind_db (executemany env (map (insert_event pid) (events r)) c3) (\<lambda>u c4.
     bind_db (execute env (insert_document pid (path_name (stored_path r)) (document_text r)
                             (utcnow env (ticks c4))) c4) (\<lambda>u c5.
     commit env c5))))"

lemma persist_one_split:
  "persist_one env r c =
     bind_db (get_process_id env (process_number r) (title r) (stored_path r) c)
       (replace_children env r)"
  unfolding persist_one_def
  by (rule arg_cong[where f = "bind_db _"]) (intro ext, simp add: replace_children_def)

lemma bind_db_Inr:
  "bind_db m k = (Inr b, c') \<Longrightarrow> \<exists>a c1. m = (Inr a, c1) \<and> k a c1 = (Inr b, c')"
  by (cases m) (auto simp: bind_db_def split: sum.splits)

lemma bind_db_Inl:
  "bind_db m k = (Inl e, c') \<Longrightarrow>
     m = (Inl e, c') \<or> (\<exists>a c1. m = (Inr a, c1) \<and> k a c1 = (Inl e, c'))"
  by (cases m) (auto simp: bind_db_def split: sum.splits)

lemma bind_db_simps:
  "bind_db (Inl e, c) k = (Inl e, c)" "bind_db (Inr a, c) k = k a c"
  by (simp_all add: bind_db_def)

lemma execute_Inr:
  "execute env f c = (Inr u, c') \<Longrightarrow> txn c' = f (txn c) \<and> disk c' = disk c \<and> ticks c' = Suc (ticks c)"
  by (auto simp: execute_def split: if_splits)

lemma execute_disk: "execute env f c = (res, c') \<Longrightarrow> disk c' = disk c"
  by (auto simp: execute_def split: if_splits)

lemma query_Inr:
  "query env f c = (Inr a, c') \<Longrightarrow> a = f (txn c) \<and> txn c' = txn c \<and> disk c' = disk c"
  by (auto simp: query_def split: if_splits)

lemma query_disk: "query env f c = (res, c') \<Longrightarrow> disk c' = disk c \<and> txn c' = txn c"
  by (auto simp: query_def split: if_splits)

lemma commit_Inr: "commit env c = (Inr u, c') \<Longrightarrow> disk c' = txn c \<and> txn c' = txn c"
  by (auto simp: commit_def split: if_splits)

lemma commit_Inl: "commit env c = (Inl e, c') \<Longrightarrow> disk c' = disk c \<and> txn c' = txn c"
  by (auto simp: commit_def split: if_splits)

lemma executemany_Inr:
  "executemany env fs c = (Inr u, c') \<Longrightarrow>
     txn c' = fold (\<lambda>f t. f t) fs (txn c) \<and> disk c' = disk c"
proof (induction fs arbitrary: c)
  case Nil
  then show ?case by simp
next
  case (Cons f fs)
  from Cons.prems obtain a c1 where e: "execute env f c = (Inr a, c1)"
    and r: "executemany env fs c1 = (Inr u, c')"
    by (auto dest: bind_db_Inr)
  from Cons.IH[OF r] execute_Inr[OF e] show ?case by simp
qed

lemma executemany_disk: "executemany env fs c = (res, c') \<Longrightarrow> disk c' = disk c"
proof (induction fs arbitrary: c)
  case Nil
  then show ?case by simp
next
  case (Cons f fs)
  obtain r1 c1 where e: "execute env f c = (r1, c1)" by (cases "execute env f c")
  show ?case
  proof (cases r1)
    case (Inl x)
    with e Cons.prems show ?thesis by (auto simp: bind_db_simps dest: execute_disk)
  next
    case (Inr x)
    with e Cons.prems have "executemany env fs c1 = (res, c')" by (simp add: bind_db_simps)
    from Cons.IH[OF this] execute_disk[OF e] show ?thesis by simp
  qed
qed


lemma bind_db_assoc:
  "bind_db (bind_db m k) h = bind_db m (\<lambda>a c. bind_db (k a c) h)"
  by (cases m) (auto simp: bind_db_def split: sum.splits)

lemma bind_db_return: "bind_db m (\<lambda>u c. (Inr (), c)) = m"
  by (cases m) (auto simp: bind_db_def split: sum.splits)

lemma persist_import_results_append:
  "persist_import_results env (xs @ ys) c =
     bind_db (persist_import_results env xs c) (\<lambda>u. persist_import_results env ys)"
proof (induction xs arbitrary: c)
  case Nil
  show ?case by (simp add: bind_db_simps)
next
  case (Cons x xs)
  have "persist_import_results env ((x # xs) @ ys) c =
      bind_db (persist_one env x c) (\<lambda>u. persist_import_results env (xs @ ys))"
    by simp
  also have "(\<lambda>u. persist_import_results env (xs @ ys)) =
      (\<lambda>u c. bind_db (persist_import_results env xs c) (\<lambda>u. persist_import_results env ys))"
    by (intro ext) (rule Cons.IH)
  finally show ?case by (simp add: bind_db_assoc)
qed

lemma persist_import_results_snoc:
  "persist_import_results env (rs @ [r]) c =
     bind_db (persist_import_results env rs c) (\<lambda>u. persist_one env r)"
proof -
  have "persist_import_results env [r] c0 = persist_one env r c0" for c0
    by (cases "persist_one env r c0") (auto simp: bind_db_def split: sum.splits)
  then have "persist_import_results env [r] = persist_one env r"
    by (intro ext)
  then show ?thesis by (simp only: persist_import_results_append)
qed

lemma get_process_id_Inr:
  assumes "get_process_id env number ttl pdf c = (Inr pid, c1)"
  shows "txn c1 = upsert_process (upsert_consumes_id env) (utcnow env (ticks c)) number ttl
                    (path_str pdf) (txn c)"
    and "disk c1 = txn c1"
    and "select_process_id number (txn c1) = Some pid"
proof -
  let ?U = "upsert_process (upsert_consumes_id env) (utcnow env (ticks c)) number ttl (path_str pdf)"
  from assms obtain u ca where e: "execute env ?U c = (Inr u, ca)"
    and r1: "bind_db (commit env ca) (\<lambda>u c2.
               bind_db (query env (select_process_id number) c2) (\<lambda>row c3.
                 case row of None \<Rightarrow> (Inl (BuildDbError id_lookup_failed), c3)
                           | Some i \<Rightarrow> (Inr i, c3))) = (Inr pid, c1)"
    unfolding get_process_id_def by (auto dest: bind_db_Inr)
  from r1 obtain u2 cb where cm: "commit env ca = (Inr u2, cb)"
    and r2: "bind_db (query env (select_process_id number) cb) (\<lambda>row c3.
                 case row of None \<Rightarrow> (Inl (BuildDbError id_lookup_failed), c3)
                           | Some i \<Rightarrow> (Inr i, c3)) = (Inr pid, c1)"
    by (auto dest: bind_db_Inr)
  from r2 obtain row cc where q: "query env (select_process_id number) cb = (Inr row, cc)"
    and r3: "(case row of None \<Rightarrow> (Inl (BuildDbError id_lookup_failed), cc)
                        | Some i \<Rightarrow> (Inr i, cc)) = (Inr pid, c1)"
    by (auto dest: bind_db_Inr)
  from r3 have row: "row = Some pid" and c1: "c1 = cc" by (cases row; simp)+
  note E = execute_Inr[OF e] and C = commit_Inr[OF cm] and Q = query_Inr[OF q]
  show "txn c1 = ?U (txn c)" using E C Q c1 by simp
  show "disk c1 = txn c1" using E C Q c1 by simp
  show "select_process_id number (txn c1) = Some pid" using E C Q c1 row by simp
qed

lemma replace_children_Inr:
  assumes "replace_children env r pid c1 = (Inr u, c')"
  shows "\<exists>now. disk c' =
           insert_document pid (path_name (stored_path r)) (document_text r) now
             (fold (\<lambda>f t. f t) (map (insert_event pid) (events r))
                (delete_documents pid (delete_events pid (txn c1))))"
    and "txn c' = disk c'"
proof -
  from assms obtain u2 c2 where e1: "execute env (delete_events pid) c1 = (Inr u2, c2)"
    and r1: "bind_db (execute env (delete_documents pid) c2) (\<lambda>u c3.
     bind_db (executemany env (map (insert_event pid) (events r)) c3) (\<lambda>u c4.
     bind_db (execute env (insert_document pid (path_name (stored_path r)) (document_text r)
                             (utcnow env (ticks c4))) c4) (\<lambda>u c5.
     commit env c5))) = (Inr u, c')"
    unfolding replace_children_def by (auto dest: bind_db_Inr)
  from r1 obtain u3 c3 where e2: "execute env (delete_documents pid) c2 = (Inr u3, c3)"
    and r2: "bind_db (executemany env (map (insert_event pid) (events r)) c3) (\<lambda>u c4.
     bind_db (execute env (insert_document pid (path_name (stored_path r)) (document_text r)
                             (utcnow env (ticks c4))) c4) (\<lambda>u c5.
     commit env c5)) = (Inr u, c')"
    by (auto dest: bind_db_Inr)
  from r2 obtain u4 c4 where e3: "executemany env (map (insert_event pid) (events r)) c3 = (Inr u4, c4)"
    and r3: "bind_db (execute env (insert_document pid (path_name (stored_path r)) (document_text r)
                             (utcnow env (ticks c4))) c4) (\<lambda>u c5.
     commit env c5) = (Inr u, c')"
    by (auto dest: bind_db_Inr)
  from r3 obtain u5 c5 where e4: "execute env (insert_document pid (path_name (stored_path r))
           (document_text r) (utcnow env (ticks c4))) c4 = (Inr u5, c5)"
    and r4: "commit env c5 = (Inr u, c')"
    by (auto dest: bind_db_Inr)
  note E1 = execute_Inr[OF e1] and E2 = execute_Inr[OF e2] and E3 = executemany_Inr[OF e3]
    and E4 = execute_Inr[OF e4] and C = commit_Inr[OF r4]
  have "disk c' =
           insert_document pid (path_name (stored_path r)) (document_text r) (utcnow env (ticks c4))
             (fold (\<lambda>f t. f t) (map (insert_event pid) (events r))
                (delete_documents pid (delete_events pid (txn c1))))"
    using E1 E2 E3 E4 C by simp
  then show "\<exists>now. disk c' =
           insert_document pid (path_name (stored_path r)) (document_text r) now
             (fold (\<lambda>f t. f t) (map (insert_event pid) (events r))
                (delete_documents pid (delete_events pid (txn c1))))" ..
  show "txn c' = disk c'" using C by simp
qed

lemma fold_insert_event:
  "t_processes (fold (\<lambda>f t. f t) (map (insert_event pid) evs) t) = t_processes t"
  "t_documents (fold (\<lambda>f t. f t) (map (insert_event pid) evs) t) = t_documents t"
  "map (\<lambda>e. (e_event_date e, e_description e))
       (filter (\<lambda>e. e_process_id e = pid)
          (t_events (fold (\<lambda>f t. f t) (map (insert_event pid) evs) t)))
     = map (\<lambda>e. (e_event_date e, e_description e))
         (filter (\<lambda>e. e_process_id e = pid) (t_events t)) @ evs"
  "filter (\<lambda>e. e_process_id e \<noteq> pid)
          (t_events (fold (\<lambda>f t. f t) (map (insert_event pid) evs) t))
     = filter (\<lambda>e. e_process_id e \<noteq> pid) (t_events t)"
  by (induction evs arbitrary: t) (simp_all add: insert_event_def Let_def)

text \<open>Claim C2. Whenever \<^verbatim>\<open>persist_import_results\<close> has completed the iteration of an
  import result without an error, the process row of its case number exists, the
  event rows of that process are, in order, exactly the (date, description) pairs of
  the result, and its document rows are exactly one row carrying the name of the
  stored file and the extracted text. The committed tables right after the iteration
  are those of the run on the results up to and including this one.\<close>

theorem persist_replaces_events_and_documents:
  assumes "persist_import_results env (rs @ [r]) c = (Inr (), c')"
  shows "\<exists>pid. select_process_id (process_number r) (disk c') = Some pid
           \<and> map (\<lambda>e. (e_event_date e, e_description e))
                 (filter (\<lambda>e. e_process_id e = pid) (t_events (disk c'))) = events r
           \<and> map (\<lambda>d. (d_file_name d, d_content d))
                 (filter (\<lambda>d. d_process_id d = pid) (t_documents (disk c')))
               = [(path_name (stored_path r), document_text r)]"
proof -
  from assms obtain u c0 where one: "persist_one env r c0 = (Inr (), c')"
    unfolding persist_import_results_snoc by (auto dest: bind_db_Inr)
  then obtain pid c1 where g: "get_process_id env (process_number r) (title r) (stored_path r) c0
                                 = (Inr pid, c1)"
    and rc: "replace_children env r pid c1 = (Inr (), c')"
    unfolding persist_one_split by (auto dest: bind_db_Inr)
  note G = get_process_id_Inr[OF g]
  from replace_children_Inr(1)[OF rc] obtain now where
    d: "disk c' = insert_document pid (path_name (stored_path r)) (document_text r) now
             (fold (\<lambda>f t. f t) (map (insert_event pid) (events r))
                (delete_documents pid (delete_events pid (txn c1))))" ..
  have sel: "select_process_id (process_number r) (disk c') = Some pid"
    using G(3) unfolding d
    by (simp add: select_process_id_def insert_document_def Let_def fold_insert_event
          delete_documents_def delete_events_def)
  have ev: "map (\<lambda>e. (e_event_date e, e_description e))
                 (filter (\<lambda>e. e_process_id e = pid) (t_events (disk c'))) = events r"
    unfolding d
    by (simp add: insert_document_def Let_def fold_insert_event delete_documents_def
          delete_events_def)
  have doc: "map (\<lambda>d. (d_file_name d, d_content d))
                 (filter (\<lambda>d. d_process_id d = pid) (t_documents (disk c')))
               = [(path_name (stored_path r), document_text r)]"
    unfolding d
    by (simp add: insert_document_def Let_def fold_insert_event delete_documents_def
          delete_events_def)
  from sel ev doc show ?thesis by (intro exI[of _ pid] conjI)
qed


lemma persist_import_results_clean:
  "disk c = txn c \<Longrightarrow> persist_import_results env rs c = (Inr u, c1) \<Longrightarrow> disk c1 = txn c1"
proof (induction rs arbitrary: c)
  case Nil
  then show ?case by simp
next
  case (Cons r rs)
  from Cons.prems(2) obtain u1 cb where one: "persist_one env r c = (Inr u1, cb)"
    and rest: "persist_import_results env rs cb = (Inr u, c1)"
    by (auto dest: bind_db_Inr)
  from one obtain pid cc where rc: "replace_children env r pid cc = (Inr u1, cb)"
    unfolding persist_one_split by (auto dest: bind_db_Inr)
  from replace_children_Inr(2)[OF rc] have "disk cb = txn cb" by simp
  from Cons.IH[OF this rest] show ?case .
qed

lemma get_process_id_Inl:
  assumes "get_process_id env number ttl pdf c = (Inl e, c')"
  shows "disk c' = disk c \<or>
         disk c' = upsert_process (upsert_consumes_id env) (utcnow env (ticks c)) number ttl
                     (path_str pdf) (txn c)"
proof -
  let ?U = "upsert_process (upsert_consumes_id env) (utcnow env (ticks c)) number ttl (path_str pdf)"
  let ?k3 = "\<lambda>row c3. case row of None \<Rightarrow> (Inl (BuildDbError id_lookup_failed), c3)
                              | Some i \<Rightarrow> (Inr i, c3)"
  let ?k2 = "\<lambda>(u::unit) c2. bind_db (query env (select_process_id number) c2) ?k3"
  from assms have a: "bind_db (execute env ?U c) (\<lambda>u c1. bind_db (commit env c1) ?k2) = (Inl e, c')"
    unfolding get_process_id_def .
  from bind_db_Inl[OF a] show ?thesis
  proof
    assume "execute env ?U c = (Inl e, c')"
    then show ?thesis by (auto dest: execute_disk)
  next
    assume "\<exists>u ca. execute env ?U c = (Inr u, ca) \<and> bind_db (commit env ca) ?k2 = (Inl e, c')"
    then obtain u ca where ex: "execute env ?U c = (Inr u, ca)"
      and b: "bind_db (commit env ca) ?k2 = (Inl e, c')" by blast
    note E = execute_Inr[OF ex]
    from bind_db_Inl[OF b] show ?thesis
    proof
      assume "commit env ca = (Inl e, c')"
      from commit_Inl[OF this] E show ?thesis by simp
    next
      assume "\<exists>u cb. commit env ca = (Inr u, cb) \<and> ?k2 u cb = (Inl e, c')"
      then obtain u2 cb where cm: "commit env ca = (Inr u2, cb)"
        and q: "bind_db (query env (select_process_id number) cb) ?k3 = (Inl e, c')" by auto
      note C = commit_Inr[OF cm]
      have "disk c' = disk cb"
        using bind_db_Inl[OF q]
      proof
        assume "query env (select_process_id number) cb = (Inl e, c')"
        then show ?thesis by (auto dest: query_disk)
      next
        assume "\<exists>row cc. query env (select_process_id number) cb = (Inr row, cc)
                  \<and> ?k3 row cc = (Inl e, c')"
        then obtain row cc where qq: "query env (select_process_id number) cb = (Inr row, cc)"
          and k: "?k3 row cc = (Inl e, c')" by blast
        from k have "c' = cc" by (cases row) simp_all
        with query_disk[OF qq] show ?thesis by simp
      qed
      with C E show ?thesis by simp
    qed
  qed
qed

lemma replace_children_Inl:
  assumes "replace_children env r pid c1 = (Inl e, c')"
  shows "disk c' = disk c1"
proof -
  let ?k4 = "\<lambda>(u::unit) c4. bind_db (execute env (insert_document pid (path_name (stored_path r))
                 (document_text r) (utcnow env (ticks c4))) c4) (\<lambda>u c5. commit env c5)"
  let ?k3 = "\<lambda>(u::unit) c3. bind_db (executemany env (map (insert_event pid) (events r)) c3) ?k4"
  let ?k2 = "\<lambda>(u::unit) c2. bind_db (execute env (delete_documents pid) c2) ?k3"
  from assms have a: "bind_db (execute env (delete_events pid) c1) ?k2 = (Inl e, c')"
    unfolding replace_children_def .
  from bind_db_Inl[OF a] show ?thesis
  proof
    assume "execute env (delete_events pid) c1 = (Inl e, c')"
    then show ?thesis by (rule execute_disk)
  next
    assume "\<exists>u c2. execute env (delete_events pid) c1 = (Inr u, c2) \<and> ?k2 u c2 = (Inl e, c')"
    then obtain u2 c2 where e1: "execute env (delete_events pid) c1 = (Inr u2, c2)"
      and b2: "bind_db (execute env (delete_documents pid) c2) ?k3 = (Inl e, c')" by auto
    note D1 = execute_disk[OF e1]
    from bind_db_Inl[OF b2] show ?thesis
    proof
      assume "execute env (delete_documents pid) c2 = (Inl e, c')"
      from execute_disk[OF this] D1 show ?thesis by simp
    next
      assume "\<exists>u c3. execute env (delete_documents pid) c2 = (Inr u, c3) \<and> ?k3 u c3 = (Inl e, c')"
      then obtain u3 c3 where e2: "execute env (delete_documents pid) c2 = (Inr u3, c3)"
        and b3: "bind_db (executemany env (map (insert_event pid) (events r)) c3) ?k4 = (Inl e, c')"
        by auto
      note D2 = execute_disk[OF e2]
      from bind_db_Inl[OF b3] show ?thesis
      proof
        assume "executemany env (map (insert_event pid) (events r)) c3 = (Inl e, c')"
        from executemany_disk[OF this] D1 D2 show ?thesis by simp
      next
        assume "\<exists>u c4. executemany env (map (insert_event pid) (events r)) c3 = (Inr u, c4)
                  \<and> ?k4 u c4 = (Inl e, c')"
        then obtain u4 c4 where e3: "executemany env (map (insert_event pid) (events r)) c3 = (Inr u4, c4)"
          and b4: "bind_db (execute env (insert_document pid (path_name (stored_path r))
                 (document_text r) (utcnow env (ticks c4))) c4) (\<lambda>u c5. commit env c5) = (Inl e, c')"
          by auto
        note D3 = executemany_disk[OF e3]
        from bind_db_Inl[OF b4] show ?thesis
        proof
          assume "execute env (insert_document pid (path_name (stored_path r))
                 (document_text r) (utcnow env (ticks c4))) c4 = (Inl e, c')"
          from execute_disk[OF this] D1 D2 D3 show ?thesis by simp
        next
          assume "\<exists>u c5. execute env (insert_document pid (path_name (stored_path r))
                 (document_text r) (utcnow env (ticks c4))) c4 = (Inr u, c5) \<and> commit env c5 = (Inl e, c')"
          then obtain u5 c5 where e4: "execute env (insert_document pid (path_name (stored_path r))
                 (document_text r) (utcnow env (ticks c4))) c4 = (Inr u5, c5)"
            and cm: "commit env c5 = (Inl e, c')" by blast
          from commit_Inl[OF cm] execute_disk[OF e4] D1 D2 D3 show ?thesis by simp
        qed
      qed
    qed
  qed
qed


lemma upsert_process_children:
  "t_events (upsert_process cons now number ttl pdf t) = t_events t"
  "t_documents (upsert_process cons now number ttl pdf t) = t_documents t"
  by (simp_all add: upsert_process_def Let_def)

lemma upsert_process_rows:
  assumes "row \<in> set (t_processes t)"
  shows "\<exists>row' \<in> set (t_processes (upsert_process cons now number ttl pdf t)).
           p_id row' = p_id row \<and> p_number row' = p_number row
           \<and> p_created_at row' = p_created_at row
           \<and> (if p_number row = number then p_title row' = ttl \<and> p_pdf_path row' = pdf
               else row' = row)"
proof (cases "number \<in> set (map p_number (t_processes t))")
  case True
  let ?f = "\<lambda>r. if p_number r = number then r\<lparr>p_title := ttl, p_pdf_path := pdf\<rparr> else r"
  from True have "t_processes (upsert_process cons now number ttl pdf t) = map ?f (t_processes t)"
    by (simp add: upsert_process_def Let_def)
  with assms have "?f row \<in> set (t_processes (upsert_process cons now number ttl pdf t))"
    by simp
  then show ?thesis by (rule bexI[rotated]) simp
next
  case False
  with assms have ne: "p_number row \<noteq> number" by auto
  from False have "t_processes (upsert_process cons now number ttl pdf t)
      = t_processes t @ [\<lparr>p_id = next_rowid (seq_processes t) (map p_id (t_processes t)),
                           p_number = number, p_title = ttl, p_pdf_path = pdf,
                           p_created_at = now\<rparr>]"
    by (simp add: upsert_process_def Let_def)
  with assms have "row \<in> set (t_processes (upsert_process cons now number ttl pdf t))" by simp
  then show ?thesis by (rule bexI[rotated]) (simp add: ne)
qed

text \<open>Claim C8. If the results \<^verbatim>\<open>rs1\<close> have been persisted and the iteration of the next
  result \<^verbatim>\<open>r\<close> raises, the whole run raises that error without touching the remaining
  results, and the committed tables keep what the earlier results committed: the event
  and document tables are unchanged, and every process row is still there with its id,
  number and creation time. The only committed change the failing result can leave is
  its own process upsert, which \<^verbatim>\<open>_get_process_id\<close> commits before the children are
  replaced.\<close>

theorem earlier_results_survive_later_failure:
  assumes clean: "disk c = txn c"
    and ok: "persist_import_results env rs1 c = (Inr (), c1)"
    and bad: "persist_one env r c1 = (Inl e, c2)"
  shows "persist_import_results env (rs1 @ r # rs2) c = (Inl e, c2)
       \<and> t_events (disk c2) = t_events (disk c1)
       \<and> t_documents (disk c2) = t_documents (disk c1)
       \<and> (disk c2 = disk c1
          \<or> disk c2 = upsert_process (upsert_consumes_id env) (utcnow env (ticks c1))
                         (process_number r) (title r) (path_str (stored_path r)) (disk c1))
       \<and> (\<forall>row \<in> set (t_processes (disk c1)).
            \<exists>row' \<in> set (t_processes (disk c2)).
              p_id row' = p_id row \<and> p_number row' = p_number row
              \<and> p_created_at row' = p_created_at row
              \<and> (p_number row \<noteq> process_number r \<longrightarrow> row' = row))"
proof -
  let ?U = "upsert_process (upsert_consumes_id env) (utcnow env (ticks c1))
              (process_number r) (title r) (path_str (stored_path r))"
  have run: "persist_import_results env (rs1 @ r # rs2) c = (Inl e, c2)"
    unfolding persist_import_results_append using ok bad by (simp add: bind_db_simps)
  have clean1: "disk c1 = txn c1"
    by (rule persist_import_results_clean[OF clean ok])
  have cases: "disk c2 = disk c1 \<or> disk c2 = ?U (disk c1)"
    using bind_db_Inl[OF bad[unfolded persist_one_split]]
  proof
    assume "get_process_id env (process_number r) (title r) (stored_path r) c1 = (Inl e, c2)"
    from get_process_id_Inl[OF this] show ?thesis unfolding clean1 .
  next
    assume "\<exists>pid ca. get_process_id env (process_number r) (title r) (stored_path r) c1
                        = (Inr pid, ca) \<and> replace_children env r pid ca = (Inl e, c2)"
    then obtain pid ca where g: "get_process_id env (process_number r) (title r) (stored_path r) c1
                        = (Inr pid, ca)"
      and rc: "replace_children env r pid ca = (Inl e, c2)" by blast
    from replace_children_Inl[OF rc] get_process_id_Inr(1,2)[OF g]
    have "disk c2 = ?U (txn c1)" by simp
    then have "disk c2 = ?U (disk c1)" by (simp only: clean1)
    then show ?thesis ..
  qed
  from cases have ev: "t_events (disk c2) = t_events (disk c1)"
    by (auto simp: upsert_process_children)
  from cases have doc: "t_documents (disk c2) = t_documents (disk c1)"
    by (auto simp: upsert_process_children)
  have rows: "\<forall>row \<in> set (t_processes (disk c1)).
            \<exists>row' \<in> set (t_processes (disk c2)).
              p_id row' = p_id row \<and> p_number row' = p_number row
              \<and> p_created_at row' = p_created_at row
              \<and> (p_number row \<noteq> process_number r \<longrightarrow> row' = row)"
  proof
    fix row assume in1: "row \<in> set (t_processes (disk c1))"
    from cases show "\<exists>row' \<in> set (t_processes (disk c2)).
              p_id row' = p_id row \<and> p_number row' = p_number row
              \<and> p_created_at row' = p_created_at row
              \<and> (p_number row \<noteq> process_number r \<longrightarrow> row' = row)"
    proof
      assume "disk c2 = disk c1"
      with in1 show ?thesis by auto
    next
      assume u: "disk c2 = ?U (disk c1)"
      from upsert_process_rows[OF in1, of "upsert_consumes_id env" "utcnow env (ticks c1)"
             "process_number r" "title r" "path_str (stored_path r)"]
      obtain row' where "row' \<in> set (t_processes (?U (disk c1)))"
        and "p_id row' = p_id row \<and> p_number row' = p_number row
           \<and> p_created_at row' = p_created_at row
           \<and> (if p_number row = process_number r
               then p_title row' = title r \<and> p_pdf_path row' = path_str (stored_path r)
               else row' = row)" by blast
      then show ?thesis unfolding u by (intro bexI[of _ row']) auto
    qed
  qed
  from run ev doc cases rows show ?thesis by blast
qed


lemma upsert_process_numbers:
  "map p_number (t_processes (upsert_process cons now number ttl pdf t)) =
     (if number \<in> set (map p_number (t_processes t)) then map p_number (t_processes t)
      else map p_number (t_processes t) @ [number])"
proof -
  have "p_number \<circ> (\<lambda>r. if p_number r = number then r\<lparr>p_title := ttl, p_pdf_path := pdf\<rparr> else r)
          = p_number"
    by (auto simp: fun_eq_iff)
  then show ?thesis by (simp add: upsert_process_def Let_def)
qed

lemma upsert_process_ids:
  "map p_id (t_processes (upsert_process cons now number ttl pdf t)) =
     (if number \<in> set (map p_number (t_processes t)) then map p_id (t_processes t)
      else map p_id (t_processes t)
             @ [next_rowid (seq_processes t) (map p_id (t_processes t))])"
proof -
  have "p_id \<circ> (\<lambda>r. if p_number r = number then r\<lparr>p_title := ttl, p_pdf_path := pdf\<rparr> else r)
          = p_id"
    by (auto simp: fun_eq_iff)
  then show ?thesis by (simp add: upsert_process_def Let_def)
qed

lemma upsert_process_selects:
  "\<exists>i. select_process_id number (upsert_process cons now number ttl pdf t) = Some i"
proof -
  have "number \<in> set (map p_number (t_processes (upsert_process cons now number ttl pdf t)))"
    unfolding upsert_process_numbers by simp
  then have "find (\<lambda>r. p_number r = number)
               (t_processes (upsert_process cons now number ttl pdf t)) \<noteq> None"
    by (auto simp: find_None_iff)
  then show ?thesis by (auto simp: select_process_id_def)
qed

lemma executemany_no_faults:
  assumes "\<And>n. \<not> fails env n"
  shows "\<exists>c'. executemany env fs c = (Inr (), c')"
  by (induction fs arbitrary: c) (simp_all add: execute_def assms bind_db_simps)

lemma get_process_id_no_faults:
  assumes "\<And>n. \<not> fails env n"
  shows "\<exists>pid c'. get_process_id env number ttl pdf c = (Inr pid, c')"
proof -
  obtain i where "select_process_id number
      (upsert_process (upsert_consumes_id env) (utcnow env (ticks c)) number ttl (path_str pdf)
         (txn c)) = Some i"
    using upsert_process_selects by blast
  then show ?thesis
    by (simp add: get_process_id_def execute_def commit_def query_def assms bind_db_simps)
qed

lemma replace_children_no_faults:
  assumes "\<And>n. \<not> fails env n"
  shows "\<exists>c'. replace_children env r pid c = (Inr (), c')"
proof -
  obtain c4 where "executemany env (map (insert_event pid) (events r))
      (c\<lparr>txn := delete_documents pid (delete_events pid (txn c)), ticks := Suc (Suc (ticks c))\<rparr>)
        = (Inr (), c4)"
    using executemany_no_faults[OF assms] by blast
  then show ?thesis
    by (simp add: replace_children_def execute_def commit_def assms bind_db_simps)
qed

lemma persist_one_no_faults:
  assumes "\<And>n. \<not> fails env n"
  shows "\<exists>c'. persist_one env r c = (Inr (), c')"
proof -
  obtain pid c1 where "get_process_id env (process_number r) (title r) (stored_path r) c
                         = (Inr pid, c1)"
    using get_process_id_no_faults[OF assms] by blast
  moreover obtain c' where "replace_children env r pid c1 = (Inr (), c')"
    using replace_children_no_faults[OF assms] by blast
  ultimately show ?thesis by (auto simp: persist_one_split bind_db_simps)
qed

lemma persist_import_results_no_faults:
  assumes "\<And>n. \<not> fails env n"
  shows "\<exists>c'. persist_import_results env rs c = (Inr (), c')"
proof (induction rs arbitrary: c)
  case Nil
  show ?case by simp
next
  case (Cons r rs)
  obtain c1 where "persist_one env r c = (Inr (), c1)"
    using persist_one_no_faults[OF assms] by blast
  with Cons.IH[of c1] show ?case by (simp add: bind_db_simps)
qed

theorem persist_replaces_events_and_documents_witness:
  "\<exists>c'. persist_import_results no_faults ([result_a] @ [result_b]) (connect empty_tables)
           = (Inr (), c')
       \<and> (\<exists>pid. select_process_id (process_number result_b) (disk c') = Some pid
           \<and> map (\<lambda>e. (e_event_date e, e_description e))
                 (filter (\<lambda>e. e_process_id e = pid) (t_events (disk c'))) = events result_b
           \<and> map (\<lambda>d. (d_file_name d, d_content d))
                 (filter (\<lambda>d. d_process_id d = pid) (t_documents (disk c')))
               = [(path_name (stored_path result_b), document_text result_b)])"
proof -
  have "\<not> fails no_faults n" for n by (simp add: no_faults_def)
  then obtain c' where h: "persist_import_results no_faults ([result_a] @ [result_b])
                             (connect empty_tables) = (Inr (), c')"
    using persist_import_results_no_faults by blast
  from h persist_replaces_events_and_documents[OF h] show ?thesis
    by (intro exI[of _ c'] conjI)
qed


text \<open>An environment whose tenth operation fails: the first operation of the second
  result of a run.\<close>

definition env_fault :: dbenv where
  "env_fault = \<lparr>fails = (\<lambda>n. n = 9), utcnow = (\<lambda>n. ''2024-01-01T00:00:00''),
                 upsert_consumes_id = True\<rparr>"

lemma persist_one_fails_first:
  "fails env (ticks c) \<Longrightarrow> persist_one env r c = (Inl SqliteError, c\<lparr>ticks := Suc (ticks c)\<rparr>)"
  by (simp add: persist_one_def get_process_id_def execute_def bind_db_simps)

theorem earlier_results_survive_later_failure_witness:
  "\<exists>c1 c2. disk (connect empty_tables) = txn (connect empty_tables)
     \<and> persist_import_results env_fault [result_a] (connect empty_tables) = (Inr (), c1)
     \<and> persist_one env_fault result_b c1 = (Inl SqliteError, c2)
     \<and> persist_import_results env_fault ([result_a] @ result_b # []) (connect empty_tables)
         = (Inl SqliteError, c2)
     \<and> t_events (disk c2) = t_events (disk c1)
     \<and> t_documents (disk c2) = t_documents (disk c1)
     \<and> map (\<lambda>e. (e_event_date e, e_description e)) (t_events (disk c2)) = events result_a
     \<and> map d_file_name (t_documents (disk c2)) = [''a.pdf'']"
proof -
  define c1 where "c1 = snd (persist_import_results env_fault [result_a] (connect empty_tables))"
  have f: "fst (persist_import_results env_fault [result_a] (connect empty_tables)) = Inr ()"
    by (simp add: persist_one_def get_process_id_def bind_db_def execute_def commit_def query_def
      env_fault_def connect_def result_a_def select_process_id_def upsert_process_def Let_def
      empty_tables_def)
  have t: "ticks c1 = 9"
    unfolding c1_def
    by (simp add: persist_one_def get_process_id_def bind_db_def execute_def commit_def query_def
      env_fault_def connect_def result_a_def select_process_id_def upsert_process_def Let_def
      empty_tables_def)
  have ev: "map (\<lambda>e. (e_event_date e, e_description e)) (t_events (disk c1)) = events result_a"
    unfolding c1_def
    by (simp add: persist_one_def get_process_id_def bind_db_def execute_def commit_def query_def
      env_fault_def connect_def result_a_def select_process_id_def upsert_process_def Let_def
      empty_tables_def insert_event_def delete_events_def delete_documents_def insert_document_def
      next_rowid_def path_name_def)
  have dc: "map d_file_name (t_documents (disk c1)) = [''a.pdf'']"
    unfolding c1_def
    by (simp add: persist_one_def get_process_id_def bind_db_def execute_def commit_def query_def
      env_fault_def connect_def result_a_def select_process_id_def upsert_process_def Let_def
      empty_tables_def insert_event_def delete_events_def delete_documents_def insert_document_def
      next_rowid_def path_name_def)
  have clean: "disk (connect empty_tables) = txn (connect empty_tables)"
    by (simp add: connect_def)
  have ok: "persist_import_results env_fault [result_a] (connect empty_tables) = (Inr (), c1)"
    using f unfolding c1_def by (simp add: prod_eq_iff)
  have "fails env_fault (ticks c1)" by (simp add: t env_fault_def)
  from persist_one_fails_first[OF this]
  have bad: "persist_one env_fault result_b c1 = (Inl SqliteError, c1\<lparr>ticks := Suc (ticks c1)\<rparr>)" .
  have ev2: "map (\<lambda>e. (e_event_date e, e_description e)) (t_events (disk (c1\<lparr>ticks := Suc (ticks c1)\<rparr>))) = events result_a"
    using ev by simp
  have dc2: "map d_file_name (t_documents (disk (c1\<lparr>ticks := Suc (ticks c1)\<rparr>))) = [''a.pdf'']"
    using dc by simp
  from earlier_results_survive_later_failure[OF clean ok bad, of "[]"] clean ok bad ev2 dc2
  show ?thesis by (intro exI[of _ c1] exI[of _ "c1\<lparr>ticks := Suc (ticks c1)\<rparr>"]) blast
qed

text \<open>The (id, number) pairs of the process rows, the uniqueness of case numbers, and
  the invariant of a connection that every operation of the persister keeps.\<close>

definition keys :: "tables \<Rightarrow> (nat \<times> string) list" where
  "keys t = map (\<lambda>r. (p_id r, p_number r)) (t_processes t)"

definition unique_numbers :: "tables \<Rightarrow> bool" where
  "unique_numbers t = distinct (map p_number (t_processes t))"

definition good :: "connection \<Rightarrow> bool" where
  "good c = (unique_numbers (disk c) \<and> unique_numbers (txn c) \<and> prefix (keys (disk c)) (keys (txn c)))"

definition grows :: "connection \<Rightarrow> connection \<Rightarrow> bool" where
  "grows c c' = (good c \<longrightarrow> good c' \<and> prefix (keys (disk c)) (keys (disk c'))
                            \<and> prefix (keys (txn c)) (keys (txn c')))"

definition safe_op :: "(tables \<Rightarrow> tables) \<Rightarrow> bool" where
  "safe_op f = (\<forall>t. (unique_numbers t \<longrightarrow> unique_numbers (f t)) \<and> prefix (keys t) (keys (f t)))"

lemma grows_refl: "grows c c"
  by (simp add: grows_def)

lemma grows_trans: "grows a b \<Longrightarrow> grows b c \<Longrightarrow> grows a c"
  unfolding grows_def by (meson prefix_order.order_trans)

lemma keys_upsert:
  "keys (upsert_process cons now number ttl pdf t) =
     (if number \<in> set (map p_number (t_processes t)) then keys t
      else keys t @ [(next_rowid (seq_processes t) (map p_id (t_processes t)), number)])"
proof -
  have "(\<lambda>r. (p_id r, p_number r))
          \<circ> (\<lambda>r. if p_number r = number then r\<lparr>p_title := ttl, p_pdf_path := pdf\<rparr> else r)
          = (\<lambda>r. (p_id r, p_number r))"
    by (auto simp: fun_eq_iff)
  then show ?thesis by (simp add: keys_def upsert_process_def Let_def)
qed

lemma safe_upsert: "safe_op (upsert_process cons now number ttl pdf)"
  unfolding safe_op_def unique_numbers_def
  by (simp add: upsert_process_numbers keys_upsert)

lemma safe_other:
  "safe_op (delete_events pid)" "safe_op (delete_documents pid)" "safe_op (insert_event pid ev)"
  "safe_op (insert_document pid name content now)" "safe_op (\<lambda>t. t)"
  by (simp_all add: safe_op_def unique_numbers_def keys_def delete_events_def
        delete_documents_def insert_event_def insert_document_def Let_def)

lemma execute_grows: "safe_op f \<Longrightarrow> grows c (snd (execute env f c))"
  unfolding grows_def good_def safe_op_def execute_def
  by (auto intro: prefix_order.order_trans)

lemma commit_grows: "grows c (snd (commit env c))"
  unfolding grows_def good_def commit_def by auto

lemma query_grows: "grows c (snd (query env f c))"
  unfolding grows_def good_def query_def by auto

lemma bind_grows:
  assumes "grows c (snd m)" and "\<And>a c1. m = (Inr a, c1) \<Longrightarrow> grows c1 (snd (k a c1))"
  shows "grows c (snd (bind_db m k))"
proof (cases m)
  case (Pair res c1)
  show ?thesis
  proof (cases res)
    case (Inl e)
    with Pair assms(1) show ?thesis by (simp add: bind_db_simps)
  next
    case (Inr a)
    with Pair have m: "m = (Inr a, c1)" by simp
    from assms(1) m have "grows c c1" by simp
    moreover from assms(2)[OF m] have "grows c1 (snd (k a c1))" .
    ultimately show ?thesis unfolding m bind_db_simps by (rule grows_trans)
  qed
qed

lemma executemany_grows:
  "(\<And>f. f \<in> set fs \<Longrightarrow> safe_op f) \<Longrightarrow> grows c (snd (executemany env fs c))"
proof (induction fs arbitrary: c)
  case Nil
  show ?case by (simp add: grows_refl)
next
  case (Cons f fs)
  show ?case
    unfolding executemany.simps
  proof (rule bind_grows)
    show "grows c (snd (execute env f c))"
      by (rule execute_grows) (simp add: Cons.prems)
    show "grows c1 (snd (executemany env fs c1))" for c1
      by (rule Cons.IH) (simp add: Cons.prems)
  qed
qed

lemma get_process_id_grows: "grows c (snd (get_process_id env number ttl pdf c))"
  unfolding get_process_id_def
  by (intro bind_grows execute_grows safe_upsert commit_grows query_grows)
     (auto simp: grows_refl split: option.splits)

lemma replace_children_grows: "grows c (snd (replace_children env r pid c))"
  unfolding replace_children_def
  by (intro bind_grows execute_grows executemany_grows safe_other commit_grows)
     (auto simp: safe_other)

lemma persist_one_grows: "grows c (snd (persist_one env r c))"
  unfolding persist_one_split
  by (intro bind_grows get_process_id_grows replace_children_grows)

lemma persist_import_results_grows: "grows c (snd (persist_import_results env rs c))"
proof (induction rs arbitrary: c)
  case Nil
  show ?case by (simp add: grows_refl)
next
  case (Cons r rs)
  show ?case
    unfolding persist_import_results.simps
  proof (rule bind_grows)
    show "grows c (snd (persist_one env r c))" by (rule persist_one_grows)
    show "grows c1 (snd (persist_import_results env rs c1))" for c1 by (rule Cons.IH)
  qed
qed


lemma fold_max_start: "a \<le> fold max ids (a::nat)"
proof (induction ids arbitrary: a)
  case Nil
  show ?case by simp
next
  case (Cons i ids)
  have "a \<le> max i a" by simp
  also have "max i a \<le> fold max ids (max i a)" by (rule Cons.IH)
  finally show ?case by simp
qed

lemma fold_max_ge: "x \<in> set ids \<Longrightarrow> x \<le> fold max ids (a::nat)"
proof (induction ids arbitrary: a)
  case Nil
  then show ?case by simp
next
  case (Cons i ids)
  show ?case
  proof (cases "x = i")
    case True
    have "i \<le> max i a" by simp
    also have "max i a \<le> fold max ids (max i a)" by (rule fold_max_start)
    finally show ?thesis using True by simp
  next
    case False
    with Cons.prems have "x \<in> set ids" by simp
    from Cons.IH[OF this] show ?thesis by simp
  qed
qed

lemma next_rowid_fresh: "next_rowid seq ids \<notin> set ids"
proof
  assume "next_rowid seq ids \<in> set ids"
  from fold_max_ge[OF this, of 0] show False by (simp add: next_rowid_def)
qed

definition stored_example :: tables where
  "stored_example =
     empty_tables\<lparr>t_processes := [\<lparr>p_id = 1, p_number = ''1234567-89.2024.1.23.4567'',
                                     p_title = ''Autos'', p_pdf_path = ''pdfs/a.pdf'',
                                     p_created_at = ''2024-01-01T00:00:00''\<rparr>],
                  seq_processes := 1\<rparr>"

text \<open>Claim C1. The upsert keeps case numbers unique. On a case number that has a row it
  changes nothing but the title and the source path of that row: ids, numbers and the
  number of rows stay. On a new case number it appends one row with an id no row has.
  A whole run of \<^verbatim>\<open>persist_import_results\<close>, failing or not, leaves committed tables
  with unique case numbers in which the (id, number) pairs present before the run are
  still the first rows.\<close>

theorem one_process_row_per_case_number:
  "(unique_numbers t \<longrightarrow> unique_numbers (upsert_process cons now number ttl pdf t))
   \<and> (number \<in> set (map p_number (t_processes t)) \<longrightarrow>
        t_processes (upsert_process cons now number ttl pdf t)
          = map (\<lambda>r. if p_number r = number then r\<lparr>p_title := ttl, p_pdf_path := pdf\<rparr> else r)
              (t_processes t)
        \<and> map p_id (t_processes (upsert_process cons now number ttl pdf t))
            = map p_id (t_processes t)
        \<and> map p_number (t_processes (upsert_process cons now number ttl pdf t))
            = map p_number (t_processes t)
        \<and> length (t_processes (upsert_process cons now number ttl pdf t))
            = length (t_processes t))
   \<and> (number \<notin> set (map p_number (t_processes t)) \<longrightarrow>
        (\<exists>fresh. fresh \<notin> set (map p_id (t_processes t))
           \<and> t_processes (upsert_process cons now number ttl pdf t)
               = t_processes t @ [\<lparr>p_id = fresh, p_number = number, p_title = ttl,
                                    p_pdf_path = pdf, p_created_at = now\<rparr>]))
   \<and> (disk c = txn c \<and> unique_numbers (disk c) \<longrightarrow>
        unique_numbers (disk (snd (persist_import_results env rs c)))
        \<and> prefix (keys (disk c)) (keys (disk (snd (persist_import_results env rs c)))))"
proof (intro conjI impI)
  show "unique_numbers (upsert_process cons now number ttl pdf t)" if "unique_numbers t"
    using that safe_upsert[of cons now number ttl pdf] by (simp add: safe_op_def)
  assume ex: "number \<in> set (map p_number (t_processes t))"
  show "t_processes (upsert_process cons now number ttl pdf t)
          = map (\<lambda>r. if p_number r = number then r\<lparr>p_title := ttl, p_pdf_path := pdf\<rparr> else r)
              (t_processes t)"
    using ex by (simp add: upsert_process_def Let_def)
  show "map p_id (t_processes (upsert_process cons now number ttl pdf t)) = map p_id (t_processes t)"
    using ex by (simp only: upsert_process_ids if_True)
  show "map p_number (t_processes (upsert_process cons now number ttl pdf t))
          = map p_number (t_processes t)"
    using ex by (simp only: upsert_process_numbers if_True)
  then show "length (t_processes (upsert_process cons now number ttl pdf t))
          = length (t_processes t)"
    by (rule map_eq_imp_length_eq)
next
  assume nex: "number \<notin> set (map p_number (t_processes t))"
  have "next_rowid (seq_processes t) (map p_id (t_processes t)) \<notin> set (map p_id (t_processes t))"
    by (rule next_rowid_fresh)
  moreover have "t_processes (upsert_process cons now number ttl pdf t)
      = t_processes t @ [\<lparr>p_id = next_rowid (seq_processes t) (map p_id (t_processes t)),
                           p_number = number, p_title = ttl, p_pdf_path = pdf,
                           p_created_at = now\<rparr>]"
    using nex by (simp add: upsert_process_def Let_def)
  ultimately show "\<exists>fresh. fresh \<notin> set (map p_id (t_processes t))
           \<and> t_processes (upsert_process cons now number ttl pdf t)
               = t_processes t @ [\<lparr>p_id = fresh, p_number = number, p_title = ttl,
                                    p_pdf_path = pdf, p_created_at = now\<rparr>]"
    by blast
next
  assume a: "disk c = txn c \<and> unique_numbers (disk c)"
  then have g: "good c" by (auto simp: good_def)
  from persist_import_results_grows[of c env rs] g
  show "unique_numbers (disk (snd (persist_import_results env rs c)))"
    and "prefix (keys (disk c)) (keys (disk (snd (persist_import_results env rs c))))"
    by (simp_all add: grows_def good_def)
qed

theorem one_process_row_per_case_number_witness:
  "unique_numbers stored_example
   \<and> unique_numbers (upsert_process True ''2024-02-02T00:00:00'' ''1234567-89.2024.1.23.4567''
                       ''Autos v2'' ''pdfs/b.pdf'' stored_example)
   \<and> ''1234567-89.2024.1.23.4567'' \<in> set (map p_number (t_processes stored_example))
   \<and> map p_id (t_processes (upsert_process True ''2024-02-02T00:00:00''
                               ''1234567-89.2024.1.23.4567'' ''Autos v2'' ''pdfs/b.pdf''
                               stored_example)) = [1]
   \<and> ''7654321-00.2023.8.26.0001'' \<notin> set (map p_number (t_processes stored_example))
   \<and> length (t_processes (upsert_process True ''2024-02-02T00:00:00''
                               ''7654321-00.2023.8.26.0001'' ''Outro'' ''pdfs/c.pdf''
                               stored_example)) = 2
   \<and> disk (connect stored_example) = txn (connect stored_example)
   \<and> unique_numbers (disk (snd (persist_import_results env_fault [result_a, result_b]
                                   (connect stored_example))))
   \<and> prefix (keys stored_example)
        (keys (disk (snd (persist_import_results env_fault [result_a, result_b]
                            (connect stored_example)))))"
proof -
  have u: "unique_numbers stored_example"
    by (simp add: unique_numbers_def stored_example_def empty_tables_def)
  have i: "''1234567-89.2024.1.23.4567'' \<in> set (map p_number (t_processes stored_example))"
    by (simp add: stored_example_def empty_tables_def)
  have n: "''7654321-00.2023.8.26.0001'' \<notin> set (map p_number (t_processes stored_example))"
    by (simp add: stored_example_def empty_tables_def)
  have c: "disk (connect stored_example) = txn (connect stored_example)
           \<and> unique_numbers (disk (connect stored_example))"
    using u by (simp add: connect_def)
  have ids: "map p_id (t_processes stored_example) = [1]"
    by (simp add: stored_example_def empty_tables_def)
  have d: "disk (connect stored_example) = stored_example" by (simp add: connect_def)
  note w1 = one_process_row_per_case_number[of stored_example True "''2024-02-02T00:00:00''"
      "''1234567-89.2024.1.23.4567''" "''Autos v2''" "''pdfs/b.pdf''" "connect stored_example"
      env_fault "[result_a, result_b]"]
  note w2 = one_process_row_per_case_number[of stored_example True "''2024-02-02T00:00:00''"
      "''7654321-00.2023.8.26.0001''" "''Outro''" "''pdfs/c.pdf''" "connect stored_example"
      env_fault "[result_a, result_b]"]
  from w1 u have a1: "unique_numbers (upsert_process True ''2024-02-02T00:00:00''
      ''1234567-89.2024.1.23.4567'' ''Autos v2'' ''pdfs/b.pdf'' stored_example)" by blast
  from w1 i have a2: "map p_id (t_processes (upsert_process True ''2024-02-02T00:00:00''
                               ''1234567-89.2024.1.23.4567'' ''Autos v2'' ''pdfs/b.pdf''
                               stored_example)) = map p_id (t_processes stored_example)" by blast
  from w2 n obtain fresh where "t_processes (upsert_process True ''2024-02-02T00:00:00''
                               ''7654321-00.2023.8.26.0001'' ''Outro'' ''pdfs/c.pdf''
                               stored_example)
       = t_processes stored_example @ [\<lparr>p_id = fresh, p_number = ''7654321-00.2023.8.26.0001'',
            p_title = ''Outro'', p_pdf_path = ''pdfs/c.pdf'',
            p_created_at = ''2024-02-02T00:00:00''\<rparr>]" by blast
  then have a3: "length (t_processes (upsert_process True ''2024-02-02T00:00:00''
                               ''7654321-00.2023.8.26.0001'' ''Outro'' ''pdfs/c.pdf''
                               stored_example)) = 2"
    by (simp add: stored_example_def empty_tables_def)
  from w1 c have a4: "unique_numbers (disk (snd (persist_import_results env_fault
        [result_a, result_b] (connect stored_example))))
     \<and> prefix (keys (disk (connect stored_example)))
        (keys (disk (snd (persist_import_results env_fault [result_a, result_b]
                            (connect stored_example)))))" by blast
  from u a1 i a2 n a3 c a4 show ?thesis unfolding ids d by blast
qed


subsection \<open>The pipeline\<close>

text \<open>\<^verbatim>\<open>shutil.copy2\<close>: the source must be a regular file; a destination that is a
  directory receives the file under the source name; copying a file onto itself and
  writing onto a directory fail.\<close>

definition copy2 :: "path \<Rightarrow> path \<Rightarrow> fs \<Rightarrow> exn + fs" where
  "copy2 src dst fs =
     (let dst' = (if map_of fs dst = Some Dir then dst @ [path_name src] else dst)
      in case map_of fs src of
           Some (File b) \<Rightarrow>
             (if dst' = src then Inl OSError
              else (case map_of fs dst' of
                      Some Dir \<Rightarrow> Inl OSError
                    | _ \<Rightarrow> Inr (AList.update dst' (File b) fs)))
         | _ \<Rightarrow> Inl OSError)"

text \<open>The function \<^verbatim>\<open>process_pdf\<close>. Paths are compared as they are, so
  \<^verbatim>\<open>resolve()\<close> is the identity.\<close>

definition process_pdf ::
  "env \<Rightarrow> path \<Rightarrow> path \<Rightarrow> path \<Rightarrow> fs \<Rightarrow> (exn + pdf_import_result) \<times> fs" where
  "process_pdf env pdf_path storage_dir temp_dir fs =
     (case mkdir_p storage_dir fs of
        Inl e \<Rightarrow> (Inl e, fs)
      | Inr fs1 \<Rightarrow>
          (let target_path = storage_dir @ [path_name pdf_path]
           in case (if pdf_path \<noteq> target_path then copy2 pdf_path target_path fs1 else Inr fs1) of
                Inl e \<Rightarrow> (Inl e, fs1)
              | Inr fs2 \<Rightarrow>
                  (case extract_text_from_pdf env target_path
                          (temp_dir @ [path_stem pdf_path @ ''.txt'']) fs2 of
                     (Inl e, fs3) \<Rightarrow> (Inl e, fs3)
                   | (Inr text_content, fs3) \<Rightarrow>
                       (case parse_case_number text_content of
                          Inl e \<Rightarrow> (Inl e, fs3)
                        | Inr number \<Rightarrow>
                            (Inr \<lparr>process_number = number,
                                  title = derive_title text_content,
                                  events = parse_events text_content,
                                  document_text = text_content,
                                  stored_path = target_path\<rparr>, fs3)))))"

text \<open>The loop of \<^verbatim>\<open>load_pdf_results\<close> over the generator \<^verbatim>\<open>_iter_pdf_files\<close>: the
  sorted listing is taken once, and \<^verbatim>\<open>is_file\<close> is asked of each path when the loop
  reaches it.\<close>

fun load_pdf_loop ::
  "env \<Rightarrow> path \<Rightarrow> path \<Rightarrow> path list \<Rightarrow> fs \<Rightarrow> pdf_import_result list
     \<Rightarrow> (exn + pdf_import_result list) \<times> fs" where
  "load_pdf_loop env storage_dir temp_dir [] fs results = (Inr results, fs)"
| "load_pdf_loop env storage_dir temp_dir (p # ps) fs results =
     (if is_file fs p
      then (case process_pdf env p storage_dir temp_dir fs of
              (Inl e, fs') \<Rightarrow> (Inl e, fs')
            | (Inr r, fs') \<Rightarrow> load_pdf_loop env storage_dir temp_dir ps fs' (results @ [r]))
      else load_pdf_loop env storage_dir temp_dir ps fs results)"

definition load_pdf_results ::
  "env \<Rightarrow> path \<Rightarrow> path \<Rightarrow> path \<Rightarrow> fs \<Rightarrow> (exn + pdf_import_result list) \<times> fs" where
  "load_pdf_results env pdf_dir storage_dir temp_dir fs =
     load_pdf_loop env storage_dir temp_dir (sort (glob_pdf fs pdf_dir)) fs []"

text \<open>The function \<^verbatim>\<open>build_database\<close>. It returns the file system and the committed
  tables: \<^verbatim>\<open>connection.close()\<close> drops the open transaction.\<close>

definition build_database ::
  "env \<Rightarrow> dbenv \<Rightarrow> path \<Rightarrow> path \<Rightarrow> fs \<Rightarrow> tables \<Rightarrow> (exn + unit) \<times> fs \<times> tables" where
  "build_database env dbenv source_dir database_path fs db =
     (let storage_dir = butlast database_path @ [''pdfs''];
          temp_dir = butlast database_path @ [''tmp'']
      in case load_pdf_results env source_dir storage_dir temp_dir fs of
           (Inl e, fs') \<Rightarrow> (Inl e, fs', db)
         | (Inr results, fs') \<Rightarrow>
             (case bind_db (ensure_schema dbenv (connect db))
                     (\<lambda>u. persist_import_results dbenv results) of
                (res, c) \<Rightarrow> (res, fs', disk c)))"

text \<open>A converter that writes the bytes of the document as its text, and a source
  directory of three documents, the second without a case number.\<close>

definition env_copying :: env where
  "env_copying =
     \<lparr>converter = (\<lambda>src dst fs. case map_of fs src of
                       Some (File b) \<Rightarrow> (Exited 0 [], AList.update dst (File b) fs)
                     | _ \<Rightarrow> (Exited 1 ''I/O Error'', fs)),
      decode = (\<lambda>b. b)\<rparr>"

definition batch_example :: fs where
  "batch_example =
     [([''in''], Dir),
      ([''in'', ''c.pdf''], File ''7654321-00.2023.8.26.0001''),
      ([''in'', ''b.pdf''], File ''sem numero''),
      ([''in'', ''a.pdf''], File ''1234567-89.2024.1.23.4567'')]"


subsection \<open>Properties of the pipeline\<close>

lemma load_pdf_loop_append:
  "load_pdf_loop env st tmp (pre @ post) fs acc =
     (case load_pdf_loop env st tmp pre fs acc of
        (Inl e, fs') \<Rightarrow> (Inl e, fs')
      | (Inr rs, fs') \<Rightarrow> load_pdf_loop env st tmp post fs' rs)"
proof (induction pre arbitrary: fs acc)
  case Nil
  show ?case by simp
next
  case (Cons p ps)
  show ?case
  proof (cases "is_file fs p")
    case False
    then show ?thesis using Cons.IH by simp
  next
    case True
    obtain x fs' where px: "process_pdf env p st tmp fs = (x, fs')"
      by (cases "process_pdf env p st tmp fs") blast
    show ?thesis
    proof (cases x)
      case (Inl e)
      then show ?thesis using True px by simp
    next
      case (Inr r)
      then show ?thesis using True px Cons.IH by simp
    qed
  qed
qed

lemma load_pdf_loop_stops:
  assumes "load_pdf_loop env st tmp pre fs acc = (Inr rs, fs1)"
    and "is_file fs1 d"
    and "process_pdf env d st tmp fs1 = (Inl e, fs2)"
  shows "load_pdf_loop env st tmp (pre @ d # post) fs acc = (Inl e, fs2)"
  using assms by (simp add: load_pdf_loop_append)

lemma process_pdf_stage_failure:
  assumes "mkdir_p st fs = Inr fsa"
    and "(if d \<noteq> st @ [path_name d] then copy2 d (st @ [path_name d]) fsa else Inr fsa) = Inr fsb"
    and "extract_text_from_pdf env (st @ [path_name d]) (tmp @ [path_stem d @ ''.txt'']) fsb = (x, fs2)"
    and "(case x of Inl e' \<Rightarrow> e' = e | Inr text_content \<Rightarrow> parse_case_number text_content = Inl e)"
  shows "process_pdf env d st tmp fs = (Inl e, fs2)"
proof (cases x)
  case (Inl e')
  then show ?thesis using assms unfolding process_pdf_def Let_def by simp
next
  case (Inr t)
  then show ?thesis using assms unfolding process_pdf_def Let_def by simp
qed

lemma build_database_load_failure:
  assumes "load_pdf_results env source_dir (butlast database_path @ [''pdfs''])
             (butlast database_path @ [''tmp'']) fs = (Inl e, fs2)"
  shows "build_database env dbenv source_dir database_path fs db = (Inl e, fs2, db)"
  using assms unfolding build_database_def Let_def by simp

text \<open>Claim C5. Let \<^verbatim>\<open>d\<close> be a document of the sorted listing whose predecessors were all
  processed, and let its extraction raise, or its text have no case number. Then
  \<^verbatim>\<open>load_pdf_results\<close> raises that error and returns no import result, the file system
  is the one the failing document left, whatever documents follow in the listing, and
  \<^verbatim>\<open>build_database\<close> raises the error with the tables of the database unchanged.\<close>

theorem failing_document_aborts_run:
  assumes "sort (glob_pdf fs source_dir) = pre @ d # post"
    and "storage_dir = butlast database_path @ [''pdfs'']"
    and "temp_dir = butlast database_path @ [''tmp'']"
    and "load_pdf_loop env storage_dir temp_dir pre fs [] = (Inr rs, fs1)"
    and "is_file fs1 d"
    and "mkdir_p storage_dir fs1 = Inr fsa"
    and "(if d \<noteq> storage_dir @ [path_name d]
          then copy2 d (storage_dir @ [path_name d]) fsa else Inr fsa) = Inr fsb"
    and "extract_text_from_pdf env (storage_dir @ [path_name d])
           (temp_dir @ [path_stem d @ ''.txt'']) fsb = (x, fs2)"
    and "(case x of Inl e' \<Rightarrow> e' = e
          | Inr text_content \<Rightarrow> parse_case_number text_content = Inl e)"
  shows "load_pdf_results env source_dir storage_dir temp_dir fs = (Inl e, fs2)
       \<and> build_database env dbenv source_dir database_path fs db = (Inl e, fs2, db)"
proof -
  have p: "process_pdf env d storage_dir temp_dir fs1 = (Inl e, fs2)"
    using process_pdf_stage_failure[OF assms(6) assms(7) assms(8) assms(9)] .
  have l: "load_pdf_results env source_dir storage_dir temp_dir fs = (Inl e, fs2)"
    unfolding load_pdf_results_def assms(1)
    using load_pdf_loop_stops[OF assms(4) assms(5) p] .
  show ?thesis
    using l build_database_load_failure[of env source_dir database_path fs e fs2 dbenv db]
    unfolding assms(2) assms(3) by simp
qed


text \<open>The file system after the first document, and after the failure of the second.\<close>

definition batch_after_a :: fs where
  "batch_after_a =
     batch_example @
     [([''pdfs''], Dir),
      ([''pdfs'', ''a.pdf''], File ''1234567-89.2024.1.23.4567''),
      ([''tmp''], Dir)]"

definition batch_failed :: fs where
  "batch_failed = batch_after_a @ [([''pdfs'', ''b.pdf''], File ''sem numero'')]"

theorem failing_document_aborts_run_witness:
  "sort (glob_pdf batch_example [''in'']) =
     [[''in'', ''a.pdf'']] @ [''in'', ''b.pdf''] # [[''in'', ''c.pdf'']]
   \<and> load_pdf_loop env_copying [''pdfs''] [''tmp''] [[''in'', ''a.pdf'']] batch_example [] =
       (Inr [\<lparr>process_number = ''1234567-89.2024.1.23.4567'',
                title = ''1234567-89.2024.1.23.4567'', events = [],
                document_text = ''1234567-89.2024.1.23.4567'',
                stored_path = [''pdfs'', ''a.pdf'']\<rparr>], batch_after_a)
   \<and> is_file batch_after_a [''in'', ''b.pdf'']
   \<and> mkdir_p [''pdfs''] batch_after_a = Inr batch_after_a
   \<and> copy2 [''in'', ''b.pdf''] [''pdfs'', ''b.pdf''] batch_after_a = Inr batch_failed
   \<and> extract_text_from_pdf env_copying [''pdfs'', ''b.pdf''] [''tmp'', ''b.txt''] batch_failed =
       (Inr ''sem numero'', batch_failed)
   \<and> parse_case_number ''sem numero'' = Inl (BuildDbError case_number_not_found)
   \<and> load_pdf_results env_copying [''in''] [''pdfs''] [''tmp''] batch_example =
       (Inl (BuildDbError case_number_not_found), batch_failed)
   \<and> build_database env_copying no_faults [''in''] [''db.sqlite3''] batch_example stored_example =
       (Inl (BuildDbError case_number_not_found), batch_failed, stored_example)"
proof -
  have h1: "sort (glob_pdf batch_example [''in'']) =
              [[''in'', ''a.pdf'']] @ [''in'', ''b.pdf''] # [[''in'', ''c.pdf'']]"
    by code_simp
  have h2: "[''pdfs''] = butlast [''db.sqlite3''] @ [''pdfs'']" by simp
  have h3: "[''tmp''] = butlast [''db.sqlite3''] @ [''tmp'']" by simp
  have h4: "load_pdf_loop env_copying [''pdfs''] [''tmp''] [[''in'', ''a.pdf'']] batch_example [] =
       (Inr [\<lparr>process_number = ''1234567-89.2024.1.23.4567'',
                title = ''1234567-89.2024.1.23.4567'', events = [],
                document_text = ''1234567-89.2024.1.23.4567'',
                stored_path = [''pdfs'', ''a.pdf'']\<rparr>], batch_after_a)"
    by code_simp
  have h5: "is_file batch_after_a [''in'', ''b.pdf'']" by code_simp
  have h6: "mkdir_p [''pdfs''] batch_after_a = Inr batch_after_a" by code_simp
  have c: "copy2 [''in'', ''b.pdf''] [''pdfs'', ''b.pdf''] batch_after_a = Inr batch_failed"
    by code_simp
  have h7: "(if [''in'', ''b.pdf''] \<noteq> [''pdfs''] @ [path_name [''in'', ''b.pdf'']]
             then copy2 [''in'', ''b.pdf''] ([''pdfs''] @ [path_name [''in'', ''b.pdf'']]) batch_after_a
             else Inr batch_after_a) = Inr batch_failed"
    using c by (simp add: path_name_def)
  have x: "extract_text_from_pdf env_copying [''pdfs'', ''b.pdf''] [''tmp'', ''b.txt''] batch_failed =
       (Inr ''sem numero'', batch_failed)"
    by code_simp
  have st: "path_stem [''in'', ''b.pdf''] = ''b''" by code_simp
  have h8: "extract_text_from_pdf env_copying ([''pdfs''] @ [path_name [''in'', ''b.pdf'']])
           ([''tmp''] @ [path_stem [''in'', ''b.pdf''] @ ''.txt'']) batch_failed =
       (Inr ''sem numero'', batch_failed)"
    using x by (simp add: path_name_def st)
  have p: "parse_case_number ''sem numero'' = Inl (BuildDbError case_number_not_found)"
    by code_simp
  have h9: "(case Inr ''sem numero'' of Inl e' \<Rightarrow> e' = BuildDbError case_number_not_found
          | Inr text_content \<Rightarrow> parse_case_number text_content = Inl (BuildDbError case_number_not_found))"
    using p by simp
  show ?thesis
    using failing_document_aborts_run[OF h1 h2 h3 h4 h5 h6 h7 h8 h9, of no_faults stored_example]
      h1 h4 h5 h6 c x p
    by blast
qed


end
